theory Spec2Isabelle
  imports Main "HOL-Library.Word"
begin

unbundle bit_operations_syntax

section \<open>Machine types and constants of package vpn\<close>

type_synonym byte = "8 word"
type_synonym uint16 = "16 word"
type_synonym uint32 = "32 word"
type_synonym int64 = "64 word"

definition interfaceMTU :: nat where
  "interfaceMTU = 3500"

definition maxContentSize :: nat where
  "maxContentSize = interfaceMTU * 2"

definition outboundChCap :: nat where
  "outboundChCap = 50"

definition tunPacketOffset :: nat where
  "tunPacketOffset = 4"

definition ipv4offsetChecksum :: nat where
  "ipv4offsetChecksum = 10"

text \<open>
  Constants that vpn.go takes from the packages it imports
  (golang.org/x/net/ipv4, golang.org/x/net/ipv6, net and wireguard/device);
  the values are those packages' and agree with the offsets the specification
  gives for \<open>parse\<close>.
\<close>

definition ipv4_Version :: byte where
  "ipv4_Version = 4"

definition ipv4_HeaderLen :: nat where
  "ipv4_HeaderLen = 20"

definition ipv6_Version :: byte where
  "ipv6_Version = 6"

definition ipv6_HeaderLen :: nat where
  "ipv6_HeaderLen = 40"

definition net_IPv4len :: nat where
  "net_IPv4len = 4"

definition net_IPv6len :: nat where
  "net_IPv6len = 16"

definition IPv4offsetSrc :: nat where
  "IPv4offsetSrc = 12"

definition IPv4offsetDst :: nat where
  "IPv4offsetDst = IPv4offsetSrc + net_IPv4len"

definition IPv6offsetSrc :: nat where
  "IPv6offsetSrc = 8"

definition IPv6offsetDst :: nat where
  "IPv6offsetDst = IPv6offsetSrc + net_IPv6len"

text \<open>A Go run-time panic is a value: every index and slice expression that can
  fail is a branch returning \<open>Inl\<close>.\<close>

datatype panic = IndexOutOfRange | SliceBoundsOutOfRange

definition bnd :: "panic + 'a \<Rightarrow> ('a \<Rightarrow> panic + 'b) \<Rightarrow> panic + 'b" where
  "bnd m f = (case m of Inl e \<Rightarrow> Inl e | Inr x \<Rightarrow> f x)"

section \<open>ChecksumEngine: the pure checksum functions\<close>

text \<open>\<open>binary.BigEndian.Uint16\<close> and \<open>binary.BigEndian.PutUint16\<close> on two bytes.\<close>

definition Uint16 :: "byte \<Rightarrow> byte \<Rightarrow> uint16" where
  "Uint16 b0 b1 = (ucast b1 OR push_bit 8 (ucast b0))"

definition hi_byte :: "uint16 \<Rightarrow> byte" where
  "hi_byte v = ucast (drop_bit 8 v)"

definition lo_byte :: "uint16 \<Rightarrow> byte" where
  "lo_byte v = ucast v"

text \<open>The carry-folding loop \<open>for v > 0xffff { v = (v >> 16) + (v & 0xffff) }\<close>,
  shared by both checksum functions.\<close>

function fold_carries :: "uint32 \<Rightarrow> uint32" where
  "fold_carries v = (if v > 0xffff then fold_carries (drop_bit 16 v + (v AND 0xffff)) else v)"
  by pat_completeness auto
termination
proof (relation "measure unat")
  show "wf (measure unat)"
    by simp
next
  fix v :: uint32
  assume big: "0xffff < v"
  have "unat (drop_bit 16 v) = drop_bit 16 (unat v)"
    by (rule unat_drop_bit_eq)
  then have hi: "unat (drop_bit 16 v) = unat v div 65536"
    by (simp add: drop_bit_eq_div)
  have "v AND 0xffff = take_bit 16 v"
    using take_bit_eq_mask[of 16 v] by (simp add: mask_eq_exp_minus_1)
  then have "unat (v AND 0xffff) = take_bit 16 (unat v)"
    by (simp only: unsigned_take_bit_eq)
  then have lo: "unat (v AND 0xffff) = unat v mod 65536"
    by (simp add: take_bit_eq_mod)
  have "unat v < 2 ^ 32"
    using unsigned_less[of v] by simp
  then have "unat v div 65536 + unat v mod 65536 < 2 ^ 32"
    by simp
  then have step: "unat (drop_bit 16 v + (v AND 0xffff)) = unat v div 65536 + unat v mod 65536"
    by (simp add: unat_word_ariths hi lo)
  have "unat v > 65535"
    using big by (simp add: word_less_nat_alt)
  then have "1 \<le> unat v div 65536"
    by (simp add: Suc_le_eq div_greater_zero_iff)
  moreover have "unat v = 65536 * (unat v div 65536) + unat v mod 65536"
    by simp
  ultimately have "unat v div 65536 + unat v mod 65536 < unat v"
    by linarith
  then show "(drop_bit 16 v + (v AND 0xffff), v) \<in> measure unat"
    by (simp only: step in_measure)
qed

declare fold_carries.simps [simp del]

text \<open>
  \<open>checksumIPv4Header\<close>, lines 265-278. The loop
  \<open>for i := 0; i < len(buf)-1; i += 2\<close> runs on Go's signed \<open>int\<close>, so an empty
  buffer makes no iteration; on \<open>nat\<close> the test is \<open>i + 1 < length buf\<close>.
\<close>

function header_loop :: "nat \<Rightarrow> byte list \<Rightarrow> uint32 \<Rightarrow> uint32" where
  "header_loop i buf v =
     (if i + 1 < length buf
      then header_loop (i + 2) buf (v + ucast (Uint16 (buf ! i) (buf ! (i + 1))))
      else v)"
  by pat_completeness auto
termination
  by (relation "measure (\<lambda>(i, buf, v). length buf - i)") auto

declare header_loop.simps [simp del]

definition checksumIPv4Header :: "byte list \<Rightarrow> uint16" where
  "checksumIPv4Header buf =
     (let v = header_loop 0 buf 0;
          v = (if length buf mod 2 = 1
               then v + push_bit 8 (ucast (buf ! (length buf - 1)))
               else v);
          v = fold_carries v
      in NOT (ucast v))"

text \<open>\<open>tcpipChecksum\<close>, lines 299-317: \<open>length := len(data) - 1\<close> is signed as well.\<close>

function tcpip_loop :: "nat \<Rightarrow> byte list \<Rightarrow> uint32 \<Rightarrow> uint32" where
  "tcpip_loop i data csum =
     (if i + 1 < length data
      then tcpip_loop (i + 2) data
             (csum + push_bit 8 (ucast (data ! i)) + ucast (data ! (i + 1)))
      else csum)"
  by pat_completeness auto
termination
  by (relation "measure (\<lambda>(i, data, csum). length data - i)") auto

declare tcpip_loop.simps [simp del]

definition tcpipChecksum :: "byte list \<Rightarrow> uint32 \<Rightarrow> uint16" where
  "tcpipChecksum data csum =
     (let csum = tcpip_loop 0 data csum;
          csum = (if length data mod 2 = 1
                  then csum + push_bit 8 (ucast (data ! (length data - 1)))
                  else csum);
          csum = fold_carries csum
      in NOT (ucast csum))"

text \<open>
  \<open>checksumIPv4TCPUDP\<close>, lines 280-294. \<open>srcIP[0] .. srcIP[3]\<close> and
  \<open>dstIP[0] .. dstIP[3]\<close> panic on a \<open>net.IP\<close> shorter than four bytes;
  \<open>uint32(len(headerAndPayload))\<close> truncates to 32 bits.
\<close>

definition checksumIPv4TCPUDP ::
  "byte list \<Rightarrow> uint32 \<Rightarrow> byte list \<Rightarrow> byte list \<Rightarrow> panic + uint16" where
  "checksumIPv4TCPUDP headerAndPayload protocol srcIP dstIP =
     (if length srcIP < 4 then Inl IndexOutOfRange
      else if length dstIP < 4 then Inl IndexOutOfRange
      else
        let csum = (0 :: uint32);
            csum = csum + push_bit 8 (ucast (srcIP ! 0) + ucast (srcIP ! 2));
            csum = csum + (ucast (srcIP ! 1) + ucast (srcIP ! 3));
            csum = csum + push_bit 8 (ucast (dstIP ! 0) + ucast (dstIP ! 2));
            csum = csum + (ucast (dstIP ! 1) + ucast (dstIP ! 3));
            totalLen = (of_nat (length headerAndPayload) :: uint32);
            csum = csum + protocol;
            csum = csum + (totalLen AND 0xffff);
            csum = csum + drop_bit 16 totalLen
        in Inr (tcpipChecksum headerAndPayload csum))"

section \<open>Slices into the packet buffer\<close>

text \<open>
  \<open>Packet.Packet\<close>, \<open>Packet.Src\<close> and \<open>Packet.Dst\<close> are Go slices that alias
  \<open>Packet.Buffer\<close>: the code only ever sets them to sub-slices of the buffer. A slice
  is its position in the array, its length and its capacity; \<open>None\<close> is Go's
  \<open>nil\<close> slice (length and capacity 0). Reslicing is checked against the capacity and
  indexing against the length, as the Go run time does.
\<close>

record slice =
  base :: nat
  len :: nat
  cap :: nat

definition slen :: "slice option \<Rightarrow> nat" where
  "slen s = (case s of None \<Rightarrow> 0 | Some v \<Rightarrow> len v)"

definition scap :: "slice option \<Rightarrow> nat" where
  "scap s = (case s of None \<Rightarrow> 0 | Some v \<Rightarrow> cap v)"

definition sbase :: "slice option \<Rightarrow> nat" where
  "sbase s = (case s of None \<Rightarrow> 0 | Some v \<Rightarrow> base v)"

definition whole :: "byte list \<Rightarrow> slice option" where
  "whole buf = Some \<lparr>base = 0, len = length buf, cap = length buf\<rparr>"

definition bytes :: "byte list \<Rightarrow> slice option \<Rightarrow> byte list" where
  "bytes buf s = take (slen s) (drop (sbase s) buf)"

definition slice_index :: "byte list \<Rightarrow> slice option \<Rightarrow> nat \<Rightarrow> panic + byte" where
  "slice_index buf s i =
     (if i < slen s then Inr (buf ! (sbase s + i)) else Inl IndexOutOfRange)"

definition slice_range :: "slice option \<Rightarrow> nat \<Rightarrow> nat \<Rightarrow> panic + slice option" where
  "slice_range s lo hi =
     (if scap s < hi \<or> hi < lo then Inl SliceBoundsOutOfRange
      else Inr (case s of
                  None \<Rightarrow> None
                | Some v \<Rightarrow> Some \<lparr>base = base v + lo, len = hi - lo, cap = cap v - lo\<rparr>))"

definition slice_from :: "slice option \<Rightarrow> nat \<Rightarrow> panic + slice option" where
  "slice_from s lo = slice_range s lo (slen s)"

definition slice_to :: "slice option \<Rightarrow> nat \<Rightarrow> panic + slice option" where
  "slice_to s hi = slice_range s 0 hi"

text \<open>The built-in \<open>copy(dst, src)\<close> moves \<open>min(len(dst), len(src))\<close> bytes.\<close>

definition copy_into :: "byte list \<Rightarrow> slice option \<Rightarrow> byte list \<Rightarrow> byte list" where
  "copy_into buf dst src =
     (let n = min (slen dst) (length src)
      in take (sbase dst) buf @ take n src @ drop (sbase dst + n) buf)"

text \<open>\<open>binary.BigEndian.PutUint16(b, v)\<close> starts with the bounds check \<open>_ = b[1]\<close>.\<close>

definition PutUint16 :: "byte list \<Rightarrow> slice option \<Rightarrow> uint16 \<Rightarrow> panic + byte list" where
  "PutUint16 buf b v =
     (if slen b < 2 then Inl IndexOutOfRange
      else Inr (buf[sbase b := hi_byte v, sbase b + 1 := lo_byte v]))"

section \<open>PacketBuffer\<close>

record Packet =
  Buffer :: "byte list"
  Packet :: "slice option"
  Src :: "slice option"
  Dst :: "slice option"
  IsIPv6 :: bool

text \<open>\<open>new(Packet)\<close>: the zero value.\<close>

definition new_Packet :: Packet where
  "new_Packet =
     \<lparr>Buffer = replicate maxContentSize 0, Packet = None, Src = None, Dst = None,
      IsIPv6 = False\<rparr>"

definition clear :: "Packet \<Rightarrow> Packet" where
  "clear data = data\<lparr>Packet := None, Src := None, Dst := None, IsIPv6 := False\<rparr>"

text \<open>
  \<open>Packet.ReadFrom\<close>, lines 196-208. The stream is the list of what its successive
  \<open>Read\<close> calls deliver: some bytes (of which at most the space left in the buffer
  is taken) and the error returned with them. When the list is used up the loop is
  still reading and the result is \<open>None\<close>.
\<close>

datatype io_error = EOF | OtherError

type_synonym stream = "(byte list \<times> io_error option) list"

fun ReadFrom_loop ::
  "stream \<Rightarrow> nat \<Rightarrow> Packet \<Rightarrow> panic + (nat \<times> io_error option \<times> Packet) option" where
  "ReadFrom_loop [] totalRead data = Inr None"
| "ReadFrom_loop ((chunk, err) # rest) totalRead data =
     (case slice_from (whole (Buffer data)) totalRead of
        Inl e \<Rightarrow> Inl e
      | Inr target \<Rightarrow>
          let n = min (slen target) (length chunk);
              data = data\<lparr>Buffer := copy_into (Buffer data) target chunk\<rparr>;
              totalRead = totalRead + n
          in case err of
               Some EOF \<Rightarrow>
                 bnd (slice_range (whole (Buffer data)) tunPacketOffset totalRead) (\<lambda>pk.
                   Inr (Some (totalRead - tunPacketOffset, None, data\<lparr>Packet := pk\<rparr>)))
             | Some OtherError \<Rightarrow>
                 Inr (Some (totalRead - tunPacketOffset, Some OtherError, data))
             | None \<Rightarrow> ReadFrom_loop rest totalRead data)"

definition ReadFrom ::
  "Packet \<Rightarrow> stream \<Rightarrow> panic + (nat \<times> io_error option \<times> Packet) option" where
  "ReadFrom data stream = ReadFrom_loop stream tunPacketOffset data"

text \<open>\<open>Packet.Parse\<close>, lines 210-234.\<close>

definition Parse :: "Packet \<Rightarrow> panic + (bool \<times> Packet)" where
  "Parse data =
     (let packet = Packet data in
      bnd (slice_index (Buffer data) packet 0) (\<lambda>b0.
        let version = drop_bit 4 b0 in
        if version = ipv4_Version then
          if slen packet < ipv4_HeaderLen then Inr (False, data)
          else
            bnd (slice_range packet IPv4offsetSrc (IPv4offsetSrc + net_IPv4len)) (\<lambda>src.
            bnd (slice_range packet IPv4offsetDst (IPv4offsetDst + net_IPv4len)) (\<lambda>dst.
              Inr (True, data\<lparr>Src := src, Dst := dst, IsIPv6 := False\<rparr>)))
        else if version = ipv6_Version then
          if slen packet < ipv6_HeaderLen then Inr (False, data)
          else
            bnd (slice_range packet IPv6offsetSrc (IPv6offsetSrc + net_IPv6len)) (\<lambda>src.
            bnd (slice_range packet IPv6offsetDst (IPv6offsetDst + net_IPv6len)) (\<lambda>dst.
              Inr (True, data\<lparr>Src := src, Dst := dst, IsIPv6 := True\<rparr>)))
        else Inr (False, data)))"

text \<open>
  \<open>Packet.RecalculateChecksum\<close>, lines 236-263. The two \<open>case\<close> arms differ only
  in the offset of the checksum inside the transport header; \<open>recalc_l4\<close> is their
  common body. \<open>Src\<close> and \<open>Dst\<close> are read through the buffer as it is when the
  transport checksum is computed.
\<close>

definition IPProtocolTCP :: byte where
  "IPProtocolTCP = 6"

definition IPProtocolUDP :: byte where
  "IPProtocolUDP = 17"

definition recalc_l4 :: "Packet \<Rightarrow> byte list \<Rightarrow> nat \<Rightarrow> nat \<Rightarrow> byte \<Rightarrow> panic + byte list" where
  "recalc_l4 data buf ipHeaderLen offsetChecksum protocol =
     bnd (slice_from (Packet data) offsetChecksum) (\<lambda>field.
       let buf = copy_into buf field [0, 0] in
       bnd (slice_from (Packet data) ipHeaderLen) (\<lambda>l4.
       bnd (checksumIPv4TCPUDP (bytes buf l4) (ucast protocol)
              (bytes buf (Src data)) (bytes buf (Dst data))) (\<lambda>checksum.
       bnd (slice_from (Packet data) offsetChecksum) (\<lambda>field.
         PutUint16 buf field checksum))))"

definition RecalculateChecksum :: "Packet \<Rightarrow> panic + Packet" where
  "RecalculateChecksum data =
     (if IsIPv6 data then Inr data
      else
        bnd (slice_index (Buffer data) (Packet data) 0) (\<lambda>b0.
          let ipHeaderLen = push_bit 2 (unat (b0 AND 0x0f)) in
          bnd (slice_from (Packet data) ipv4offsetChecksum) (\<lambda>field.
            let buf = copy_into (Buffer data) field [0, 0] in
            bnd (slice_to (Packet data) ipHeaderLen) (\<lambda>header.
              let ipChecksum = checksumIPv4Header (bytes buf header) in
              bnd (slice_from (Packet data) ipv4offsetChecksum) (\<lambda>field.
              bnd (PutUint16 buf field ipChecksum) (\<lambda>buf.
              bnd (slice_index buf (Packet data) 9) (\<lambda>protocol.
                if protocol = IPProtocolTCP then
                  bnd (recalc_l4 data buf ipHeaderLen (ipHeaderLen + 16) protocol) (\<lambda>buf.
                    Inr (data\<lparr>Buffer := buf\<rparr>))
                else if protocol = IPProtocolUDP then
                  bnd (recalc_l4 data buf ipHeaderLen (ipHeaderLen + 6) protocol) (\<lambda>buf.
                    Inr (data\<lparr>Buffer := buf\<rparr>))
                else Inr (data\<lparr>Buffer := buf\<rparr>))))))))"

text \<open>
  Names for what the claims about \<open>RecalculateChecksum\<close> speak of. \<open>zero2\<close> and
  \<open>put16\<close> are its two-byte stores (\<open>copy(.., []byte{0, 0})\<close> and
  \<open>PutUint16\<close> on a field that has room). \<open>ihl_of\<close> is
  \<open>int(packet[0] & 0x0f) << 2\<close> and \<open>protocol_of\<close> is \<open>packet[9]\<close>;
  \<open>checksum_field\<close> reads the two bytes at \<open>ipv4offsetChecksum\<close> big-endian;
  \<open>header_zeroed\<close> is \<open>packet[:ihl]\<close> with these two bytes zero;
  \<open>header_stored\<close> is the buffer once the header checksum has been written.
\<close>

definition zero2 :: "nat \<Rightarrow> byte list \<Rightarrow> byte list" where
  "zero2 i buf = buf[i := 0, i + 1 := 0]"

definition put16 :: "nat \<Rightarrow> uint16 \<Rightarrow> byte list \<Rightarrow> byte list" where
  "put16 i v buf = buf[i := hi_byte v, i + 1 := lo_byte v]"

definition ihl_of :: "Packet \<Rightarrow> nat" where
  "ihl_of data = push_bit 2 (unat (Buffer data ! sbase (Packet data) AND 0x0f))"

definition protocol_of :: "Packet \<Rightarrow> byte" where
  "protocol_of data = Buffer data ! (sbase (Packet data) + 9)"

definition checksum_field :: "Packet \<Rightarrow> uint16" where
  "checksum_field data =
     Uint16 (Buffer data ! (sbase (Packet data) + ipv4offsetChecksum))
            (Buffer data ! (sbase (Packet data) + ipv4offsetChecksum + 1))"

definition header_zeroed :: "Packet \<Rightarrow> byte list" where
  "header_zeroed data =
     take (ihl_of data)
       (drop (sbase (Packet data))
          (zero2 (sbase (Packet data) + ipv4offsetChecksum) (Buffer data)))"

definition header_stored :: "nat \<Rightarrow> nat \<Rightarrow> byte list \<Rightarrow> byte list" where
  "header_stored b ihl buf =
     put16 (b + 10) (checksumIPv4Header (take ihl (drop b (zero2 (b + 10) buf))))
       (zero2 (b + 10) buf)"

section \<open>TunDevice\<close>

text \<open>
  The fields of \<open>Device\<close> that the packet path uses. The kernel TUN device is the
  environment: what \<open>tun.Write\<close> answers is a parameter of \<open>WritePacket\<close>, and
  what successive \<open>tun.Read\<close> calls deliver is a parameter of the packet reader.
  \<open>outboundCh\<close> holds the packets sent on the channel, oldest first;
  \<open>outboundDataPool\<close> is the \<open>sync.Pool\<close> as a free list, with \<open>new(Packet)\<close>
  as its \<open>New\<close> function.
\<close>

record Device =
  localIP :: "byte list"
  outboundCh :: "Packet list"
  outboundDataPool :: "Packet list"

definition GetTempPacket :: "Device \<Rightarrow> Packet \<times> Device" where
  "GetTempPacket d =
     (case outboundDataPool d of
        [] \<Rightarrow> (new_Packet, d)
      | p # ps \<Rightarrow> (p, d\<lparr>outboundDataPool := ps\<rparr>))"

definition PutTempPacket :: "Device \<Rightarrow> Packet \<Rightarrow> Device" where
  "PutTempPacket d data = d\<lparr>outboundDataPool := clear data # outboundDataPool d\<rparr>"

text \<open>\<open>Device.WritePacket\<close>, lines 87-105. \<open>tunWrite buf offset\<close> is the device's
  answer \<open>(n, failed)\<close> to \<open>d.tun.Write(buf, offset)\<close>.\<close>

datatype log_entry =
    Warn_short_write int nat
  | Error_tun_read

record write_result =
  wr_error :: "string option"
  wr_written :: "(byte list \<times> nat) option"
  wr_log :: "log_entry list"
  wr_data :: Packet

definition WritePacket ::
  "(byte list \<Rightarrow> nat \<Rightarrow> int \<times> bool) \<Rightarrow> Device \<Rightarrow> Packet \<Rightarrow> byte list \<Rightarrow> panic + write_result" where
  "WritePacket tunWrite d data senderIP =
     (if IsIPv6 data
      then Inr \<lparr>wr_error = None, wr_written = None, wr_log = [], wr_data = data\<rparr>
      else
        let data = data\<lparr>Buffer := copy_into (Buffer data) (Src data) senderIP\<rparr>;
            data = data\<lparr>Buffer := copy_into (Buffer data) (Dst data) (localIP d)\<rparr>
        in
        bnd (RecalculateChecksum data) (\<lambda>data.
        bnd (slice_to (whole (Buffer data)) (tunPacketOffset + slen (Packet data))) (\<lambda>out.
          let buf = bytes (Buffer data) out;
              (n, failed) = tunWrite buf tunPacketOffset
          in
          if failed then
            Inr \<lparr>wr_error = Some ''write packet to tun'',
                 wr_written = Some (buf, tunPacketOffset), wr_log = [], wr_data = data\<rparr>
          else if n < int (slen (Packet data)) then
            Inr \<lparr>wr_error = None, wr_written = Some (buf, tunPacketOffset),
                 wr_log = [Warn_short_write n (slen (Packet data))], wr_data = data\<rparr>
          else
            Inr \<lparr>wr_error = None, wr_written = Some (buf, tunPacketOffset),
                 wr_log = [], wr_data = data\<rparr>)))"

text \<open>
  \<open>Device.tunPacketsReader\<close>, lines 150-179. One element of the list is what one
  \<open>d.tun.Read(data.Buffer[:], tunPacketOffset)\<close> returns: end of file, another
  error, or a size \<open>n\<close> together with the bytes the device stored at the offset. When the
  list is used up the reader is blocked in \<open>Read\<close>.
\<close>

datatype tun_read = TunEOF | TunError | TunData nat "byte list"

fun tunPacketsReader :: "tun_read list \<Rightarrow> Packet option \<Rightarrow> Device \<Rightarrow> panic + Device" where
  "tunPacketsReader [] data d =
     Inr (case data of None \<Rightarrow> snd (GetTempPacket d) | Some p \<Rightarrow> d)"
| "tunPacketsReader (r # rs) data d =
     (let (data, d) = (case data of None \<Rightarrow> GetTempPacket d | Some p \<Rightarrow> (clear p, d)) in
      case r of
        TunEOF \<Rightarrow> Inr d
      | TunError \<Rightarrow> Inr d
      | TunData n payload \<Rightarrow>
          (case slice_from (whole (Buffer data)) tunPacketOffset of
             Inl e \<Rightarrow> Inl e
           | Inr target \<Rightarrow>
               let data = data\<lparr>Buffer := copy_into (Buffer data) target payload\<rparr> in
               if n = 0 \<or> n > maxContentSize then tunPacketsReader rs (Some data) d
               else
                 (case slice_range (whole (Buffer data)) tunPacketOffset (n + tunPacketOffset) of
                    Inl e \<Rightarrow> Inl e
                  | Inr pk \<Rightarrow>
                      (case Parse (data\<lparr>Packet := pk\<rparr>) of
                         Inl e \<Rightarrow> Inl e
                       | Inr (okay, data) \<Rightarrow>
                           if \<not> okay then tunPacketsReader rs (Some data) d
                           else tunPacketsReader rs None
                                  (d\<lparr>outboundCh := outboundCh d @ [data]\<rparr>)))))"

text \<open>
  What the claims say of a packet sent on the outbound channel: its size is positive
  and at most \<open>maxContentSize\<close>, its packet view is
  \<open>Buffer[tunPacketOffset : tunPacketOffset + size]\<close>, \<open>Parse\<close> succeeds on it, and
  when it is IPv4 its \<open>Src\<close> and \<open>Dst\<close> are views of exactly four bytes inside the
  packet, at offsets 12 and 16. \<open>array_sized\<close> is the type \<open>[maxContentSize]byte\<close> of
  \<open>Buffer\<close>; \<open>rejected_size\<close> is the size test of the reader.
\<close>

definition inside :: "slice option \<Rightarrow> slice option \<Rightarrow> bool" where
  "inside s t \<longleftrightarrow> sbase t \<le> sbase s \<and> sbase s + slen s \<le> sbase t + slen t"

definition well_emitted :: "Packet \<Rightarrow> bool" where
  "well_emitted p \<longleftrightarrow>
     0 < slen (Packet p) \<and> slen (Packet p) \<le> maxContentSize
     \<and> length (Buffer p) = maxContentSize
     \<and> Packet p = Some \<lparr>base = tunPacketOffset, len = slen (Packet p),
                         cap = maxContentSize - tunPacketOffset\<rparr>
     \<and> tunPacketOffset + slen (Packet p) \<le> maxContentSize
     \<and> Parse p = Inr (True, p)
     \<and> (\<not> IsIPv6 p \<longrightarrow>
          slen (Src p) = 4 \<and> slen (Dst p) = 4
          \<and> inside (Src p) (Packet p) \<and> inside (Dst p) (Packet p)
          \<and> sbase (Src p) = sbase (Packet p) + 12 \<and> sbase (Dst p) = sbase (Packet p) + 16)"

fun rejected_size :: "tun_read \<Rightarrow> bool" where
  "rejected_size (TunData n payload) = (n = 0 \<or> maxContentSize < n)"
| "rejected_size r = True"

definition array_sized :: "Packet \<Rightarrow> bool" where
  "array_sized p \<longleftrightarrow> length (Buffer p) = maxContentSize"

section \<open>PacketPool under arbitrary clients\<close>

text \<open>
  The clients of the pool check buffers out, fill the buffers they hold (\<open>Use\<close>
  stands for \<open>ReadFrom\<close>, \<open>Parse\<close>, \<open>WritePacket\<close> or the TUN reader, and may
  leave any contents in a buffer of the array's size), and check them in again;
  \<open>Forget\<close> is \<open>sync.Pool\<close> releasing a pooled object. \<open>held\<close> are the buffers
  checked out and not yet returned.
\<close>

datatype pool_op = Get | Put nat | Use nat Packet | Forget

fun pool_step :: "Device \<times> Packet list \<Rightarrow> pool_op \<Rightarrow> Device \<times> Packet list" where
  "pool_step (d, held) Get = (let (p, d') = GetTempPacket d in (d', held @ [p]))"
| "pool_step (d, held) (Put i) =
     (if i < length held
      then (PutTempPacket d (held ! i), take i held @ drop (Suc i) held)
      else (d, held))"
| "pool_step (d, held) (Use i p) =
     (if i < length held \<and> length (Buffer p) = maxContentSize
      then (d, held[i := p])
      else (d, held))"
| "pool_step (d, held) Forget = (d\<lparr>outboundDataPool := tl (outboundDataPool d)\<rparr>, held)"

definition pool_run :: "Device \<Rightarrow> pool_op list \<Rightarrow> Device \<times> Packet list" where
  "pool_run d ops = foldl pool_step (d, []) ops"

definition clean :: "Packet \<Rightarrow> bool" where
  "clean p \<longleftrightarrow> Packet p = None \<and> Src p = None \<and> Dst p = None \<and> \<not> IsIPv6 p"

definition zero_initialized :: "Packet \<Rightarrow> bool" where
  "zero_initialized p \<longleftrightarrow> clean p \<and> list_all (\<lambda>b. b = 0) (Buffer p)"

section \<open>StreamAccountant: the notification bundle of InitHost\<close>

text \<open>
  application.go, lines 323-345. The three counters are \<open>int64\<close> fields updated with
  \<open>atomic.AddInt64\<close>, which wraps around. A notification carries the stream's
  direction (libp2p's \<open>network.Direction\<close>: unknown, inbound or outbound), or
  \<open>None\<close> for a nil stream, which \<open>OpenedStreamF\<close> logs and ignores. The
  receiver \<open>p\<close> is the host under construction and is never nil here.
\<close>

datatype Direction = DirUnknown | DirInbound | DirOutbound

datatype notification = OpenedStream "Direction option" | ClosedStream

record P2p =
  openedStreams :: int64
  totalStreamsInbound :: int64
  totalStreamsOutbound :: int64

fun notify :: "P2p \<Rightarrow> notification \<Rightarrow> P2p" where
  "notify p (OpenedStream None) = p"
| "notify p (OpenedStream (Some dir)) =
     (let p = p\<lparr>openedStreams := openedStreams p + 1\<rparr> in
      case dir of
        DirInbound \<Rightarrow> p\<lparr>totalStreamsInbound := totalStreamsInbound p + 1\<rparr>
      | DirOutbound \<Rightarrow> p\<lparr>totalStreamsOutbound := totalStreamsOutbound p + 1\<rparr>
      | DirUnknown \<Rightarrow> p)"
| "notify p ClosedStream = p\<lparr>openedStreams := openedStreams p - 1\<rparr>"

definition zero_counters :: P2p where
  "zero_counters = \<lparr>openedStreams = 0, totalStreamsInbound = 0, totalStreamsOutbound = 0\<rparr>"

definition notify_all :: "notification list \<Rightarrow> P2p" where
  "notify_all ns = foldl notify zero_counters ns"

text \<open>The accessors \<open>OpenStreamsCount\<close>, \<open>TotalStreamsInbound\<close> and
  \<open>TotalStreamsOutbound\<close> read the counters as signed 64-bit values.\<close>

definition OpenStreamsCount :: "P2p \<Rightarrow> int" where
  "OpenStreamsCount p = sint (openedStreams p)"

definition TotalStreamsInbound :: "P2p \<Rightarrow> int" where
  "TotalStreamsInbound p = sint (totalStreamsInbound p)"

definition TotalStreamsOutbound :: "P2p \<Rightarrow> int" where
  "TotalStreamsOutbound p = sint (totalStreamsOutbound p)"

text \<open>
  A trace is well bracketed when, in each of its prefixes, no more streams have been
  closed than non-nil streams have been opened: every \<open>ClosedStream\<close> answers an
  earlier \<open>OpenedStream\<close>.
\<close>

fun bracketed :: "nat \<Rightarrow> notification list \<Rightarrow> bool" where
  "bracketed k [] = True"
| "bracketed k (OpenedStream None # ns) = bracketed k ns"
| "bracketed k (OpenedStream (Some dir) # ns) = bracketed (Suc k) ns"
| "bracketed k (ClosedStream # ns) = (0 < k \<and> bracketed (k - 1) ns)"

definition directed :: "notification \<Rightarrow> bool" where
  "directed n \<longleftrightarrow> n \<noteq> OpenedStream (Some DirUnknown)"

text \<open>What a trace has done, counted on unbounded integers.\<close>

fun is_opened :: "notification \<Rightarrow> bool" where
  "is_opened (OpenedStream (Some d)) = True"
| "is_opened n = False"

fun has_dir :: "Direction \<Rightarrow> notification \<Rightarrow> bool" where
  "has_dir d (OpenedStream (Some d')) = (d = d')"
| "has_dir d n = False"

definition opened :: "notification list \<Rightarrow> nat" where
  "opened ns = length (filter is_opened ns)"

definition closed :: "notification list \<Rightarrow> nat" where
  "closed ns = length (filter (\<lambda>n. n = ClosedStream) ns)"

definition opened_dir :: "Direction \<Rightarrow> notification list \<Rightarrow> nat" where
  "opened_dir d ns = length (filter (has_dir d) ns)"

section \<open>Bootstrapper\<close>

text \<open>
  \<open>P2p.Bootstrap\<close>, application.go lines 502-534. The environment gives, for each
  configured bootstrap address, whether \<open>peer.AddrInfoFromP2pAddr\<close> parses it and
  what \<open>host.Connect\<close> returns for it, and what \<open>dht.Bootstrap\<close> returns. The
  function yields the returned error and the trace of its observable actions. Each
  goroutine's body (the dial and its log line) is one block of the trace; \<open>sched\<close>
  chooses the order in which the started goroutines run before \<open>wg.Wait\<close> returns.
\<close>

datatype connect_result = Connected | Canceled | ConnectError

datatype bootstrap_peer = Unparseable | Parsed nat connect_result

datatype action =
    Debug_bootstrapping
  | Warn_invalid_addr nat
  | Connect nat
  | Warn_connect nat
  | Info_connected nat
  | Info_all_connected
  | DhtBootstrap

fun dial :: "nat \<times> connect_result \<Rightarrow> action list" where
  "dial (peerInfo, ConnectError) = [Connect peerInfo, Warn_connect peerInfo]"
| "dial (peerInfo, Canceled) = [Connect peerInfo]"
| "dial (peerInfo, Connected) = [Connect peerInfo, Info_connected peerInfo]"

fun spawn :: "nat \<Rightarrow> bootstrap_peer list \<Rightarrow> action list \<times> (nat \<times> connect_result) list" where
  "spawn i [] = ([], [])"
| "spawn i (Unparseable # ps) =
     (let (warns, started) = spawn (Suc i) ps in (Warn_invalid_addr i # warns, started))"
| "spawn i (Parsed peerInfo r # ps) =
     (let (warns, started) = spawn (Suc i) ps in (warns, (peerInfo, r) # started))"

function wait_group :: "nat list \<Rightarrow> (nat \<times> connect_result) list \<Rightarrow> action list" where
  "wait_group sched [] = []"
| "wait_group [] (g # gs) = dial g @ wait_group [] gs"
| "wait_group (k # sched) (g # gs) =
     (let i = k mod length (g # gs)
      in dial ((g # gs) ! i) @ wait_group sched (take i (g # gs) @ drop (Suc i) (g # gs)))"
  by pat_completeness auto
termination
  by (relation "measure (\<lambda>(sched, gs). length gs)") auto

definition Bootstrap ::
  "nat list \<Rightarrow> bootstrap_peer list \<Rightarrow> string option \<Rightarrow> string option \<times> action list" where
  "Bootstrap sched bootstrapPeers dhtResult =
     (let (warns, started) = spawn 0 bootstrapPeers;
          trace = [Debug_bootstrapping] @ warns @ wait_group sched started
                    @ [Info_all_connected, DhtBootstrap]
      in case dhtResult of
           Some err \<Rightarrow> (Some (''bootstrap dht: '' @ err), trace)
         | None \<Rightarrow> (None, trace))"

section \<open>RFC 1071 as the specification words it\<close>

text \<open>
  The reference the checksum functions are compared with, on unbounded naturals:
  the bytes are read as 16-bit big-endian words, an odd trailing byte counting as
  the high byte of a last word; the words are added up; the carries are folded by
  adding the high and the low 16-bit halves until the sum fits in 16 bits; the
  checksum is the one's complement of the result.
\<close>

fun be_words :: "byte list \<Rightarrow> nat list" where
  "be_words [] = []"
| "be_words [b] = [unat b * 256]"
| "be_words (b0 # b1 # bs) = (unat b0 * 256 + unat b1) # be_words bs"

function fold_halves :: "nat \<Rightarrow> nat" where
  "fold_halves n = (if n > 65535 then fold_halves (n div 65536 + n mod 65536) else n)"
  by pat_completeness auto
termination
proof (relation "measure id")
  show "wf (measure id)"
    by simp
next
  fix n :: nat
  assume "65535 < n"
  then have "1 \<le> n div 65536"
    by (simp add: Suc_le_eq div_greater_zero_iff)
  moreover have "n = 65536 * (n div 65536) + n mod 65536"
    by simp
  ultimately have "n div 65536 + n mod 65536 < n"
    by linarith
  then show "(n div 65536 + n mod 65536, n) \<in> measure id"
    by simp
qed

declare fold_halves.simps [simp del]

definition rfc1071_sum :: "byte list \<Rightarrow> nat" where
  "rfc1071_sum bs = sum_list (be_words bs)"

definition ones_complement :: "nat \<Rightarrow> uint16" where
  "ones_complement n = NOT (of_nat (fold_halves n))"

definition rfc1071_checksum :: "byte list \<Rightarrow> uint16" where
  "rfc1071_checksum bs = ones_complement (rfc1071_sum bs)"

text \<open>The IPv4 pseudo-header: source, destination, a zero byte, the protocol and
  the 16-bit length of the transport segment.\<close>

definition pseudo_header :: "byte list \<Rightarrow> byte list \<Rightarrow> nat \<Rightarrow> nat \<Rightarrow> byte list" where
  "pseudo_header src dst protocol l4len =
     src @ dst @ [0, of_nat protocol, of_nat (l4len div 256), of_nat l4len]"

section \<open>Example packets\<close>

text \<open>A pooled buffer that holds the given datagram at the TUN header offset, as the
  packet reader and \<open>ReadFrom\<close> leave it before \<open>Parse\<close>.\<close>

definition packet_of :: "byte list \<Rightarrow> Packet" where
  "packet_of bs =
     \<lparr>Buffer = replicate tunPacketOffset 0 @ bs
                @ replicate (maxContentSize - tunPacketOffset - length bs) 0,
      Packet = Some \<lparr>base = tunPacketOffset, len = length bs,
                      cap = maxContentSize - tunPacketOffset\<rparr>,
      Src = None, Dst = None, IsIPv6 = False\<rparr>"

text \<open>An IPv4 header (IHL 5, protocol TCP, 10.0.0.1 to 10.0.0.2) with nothing after it.\<close>

definition bare_tcp_header :: "byte list" where
  "bare_tcp_header =
     [0x45, 0, 0, 0x14, 0, 1, 0, 0, 0x40, 6, 0, 0, 10, 0, 0, 1, 10, 0, 0, 2]"

text \<open>The UDP datagram of the specification's first scenario, with an 8-byte UDP
  header in front of the payload.\<close>

definition udp_datagram :: "byte list" where
  "udp_datagram =
     [0x45, 0, 0, 0x26, 0, 1, 0, 0, 0x40, 0x11, 0, 0, 10, 0, 0, 1, 10, 0, 0, 2,
      0x12, 0x34, 0, 0x35, 0, 0x12, 0, 0,
      0xaa, 0xaa, 0xaa, 0xaa, 0xaa, 0xaa, 0xaa, 0xaa, 0xaa, 0xaa]"

text \<open>A TCP SYN without payload from 10.0.0.1 to 10.0.0.2 (second scenario).\<close>

definition tcp_syn :: "byte list" where
  "tcp_syn =
     [0x45, 0, 0, 0x28, 0, 1, 0, 0, 0x40, 6, 0, 0, 10, 0, 0, 1, 10, 0, 0, 2,
      0x04, 0xd2, 0, 0x50, 0, 0, 0, 1, 0, 0, 0, 0, 0x50, 0x02, 0xff, 0xff, 0, 0, 0, 0]"

text \<open>The same UDP datagram with the header-length nibble 1 (IHL field below the
  IPv4 minimum of 5), which \<open>Parse\<close> accepts.\<close>

definition short_ihl_udp :: "byte list" where
  "short_ihl_udp =
     [0x41, 0, 0, 0x26, 0, 1, 0, 0, 0x40, 0x11, 0, 0, 10, 0, 0, 1, 10, 0, 0, 2,
      0x12, 0x34, 0, 0x35, 0, 0x12, 0, 0,
      0xaa, 0xaa, 0xaa, 0xaa, 0xaa, 0xaa, 0xaa, 0xaa, 0xaa, 0xaa]"

text \<open>The same buffer once \<open>Parse\<close> has recognised an IPv4 packet in it.\<close>

definition parsed_ipv4 :: "byte list \<Rightarrow> Packet" where
  "parsed_ipv4 bs =
     (packet_of bs)
       \<lparr>Src := Some \<lparr>base = tunPacketOffset + IPv4offsetSrc, len = net_IPv4len,
                       cap = maxContentSize - tunPacketOffset - IPv4offsetSrc\<rparr>,
        Dst := Some \<lparr>base = tunPacketOffset + IPv4offsetDst, len = net_IPv4len,
                       cap = maxContentSize - tunPacketOffset - IPv4offsetDst\<rparr>\<rparr>"

text \<open>A device as \<open>NewDevice\<close> leaves it: nothing sent yet, nothing pooled.\<close>

definition example_device :: Device where
  "example_device = \<lparr>localIP = [10, 66, 0, 1], outboundCh = [], outboundDataPool = []\<rparr>"

section \<open>Basic facts\<close>

lemmas vpn_consts =
  interfaceMTU_def maxContentSize_def tunPacketOffset_def ipv4offsetChecksum_def
  ipv4_Version_def ipv4_HeaderLen_def ipv6_Version_def ipv6_HeaderLen_def
  net_IPv4len_def net_IPv6len_def IPv4offsetSrc_def IPv4offsetDst_def
  IPv6offsetSrc_def IPv6offsetDst_def IPProtocolTCP_def IPProtocolUDP_def

lemma bnd_Inl [simp]: "bnd (Inl e) f = Inl e"
  by (simp add: bnd_def)

lemma bnd_Inr [simp]: "bnd (Inr x) f = f x"
  by (simp add: bnd_def)

lemma bnd_eq_Inr:
  "bnd m f = Inr y \<longleftrightarrow> (\<exists>x. m = Inr x \<and> f x = Inr y)"
  by (cases m) simp_all

lemma packet_of_view:
  "Packet (packet_of bs) = Some \<lparr>base = 4, len = length bs, cap = 6996\<rparr>"
  by (simp add: packet_of_def vpn_consts)

lemma packet_of_nth:
  "i < length bs \<Longrightarrow> Buffer (packet_of bs) ! (4 + i) = bs ! i"
  by (simp add: packet_of_def vpn_consts nth_append)

lemma length_packet_of:
  "length bs \<le> 6996 \<Longrightarrow> length (Buffer (packet_of bs)) = maxContentSize"
  by (simp add: packet_of_def vpn_consts)

lemma Parse_Inr_False:
  "Parse data = Inr (False, data') \<Longrightarrow> data' = data"
  by (auto simp: Parse_def bnd_eq_Inr Let_def split: if_splits)

lemma Parse_Inr_True:
  assumes "Parse data = Inr (True, data')"
  shows "Packet data' = Packet data \<and> Buffer data' = Buffer data
       \<and> Parse data' = Inr (True, data')
       \<and> 0 < slen (Packet data)
       \<and> (\<not> IsIPv6 data' \<longrightarrow>
            20 \<le> slen (Packet data) \<and> 16 \<le> scap (Packet data)
            \<and> slice_range (Packet data) 12 16 = Inr (Src data')
            \<and> slice_range (Packet data) 16 20 = Inr (Dst data'))"
  using assms
  by (auto simp: Parse_def bnd_eq_Inr Let_def slice_index_def slice_range_def vpn_consts
      split: if_splits)

section \<open>Parsing\<close>

text \<open>
  Claim C10. \<open>Parse\<close> indexes byte 0 of the packet slice before it looks at the
  length: on a buffer whose packet view is empty it panics with an index out of
  range instead of returning false. \<open>ReadFrom\<close> produces such a buffer from a stream
  that reports end of stream at once.
\<close>

theorem Parse_needs_nonempty_packet:
  assumes "tunPacketOffset \<le> length (Buffer data)"
      and "slen (Packet p) = 0"
  shows "(\<exists>data'. ReadFrom data (([], Some EOF) # rest) = Inr (Some (0, None, data'))
            \<and> Packet data' = Some \<lparr>base = tunPacketOffset, len = 0,
                                     cap = length (Buffer data) - tunPacketOffset\<rparr>
            \<and> Parse data' = Inl IndexOutOfRange)
       \<and> Parse p = Inl IndexOutOfRange"
  using assms
  by (simp add: ReadFrom_def slice_from_def slice_range_def whole_def slen_def scap_def
      copy_into_def Parse_def slice_index_def sbase_def)

theorem Parse_needs_nonempty_packet_witness:
  "tunPacketOffset \<le> length (Buffer new_Packet) \<and> slen (Packet new_Packet) = 0
   \<and> (\<exists>data'. ReadFrom new_Packet [([], Some EOF)] = Inr (Some (0, None, data'))
         \<and> Parse data' = Inl IndexOutOfRange)
   \<and> Parse new_Packet = Inl IndexOutOfRange"
proof -
  have a: "tunPacketOffset \<le> length (Buffer new_Packet)"
    by (simp add: new_Packet_def vpn_consts)
  have b: "slen (Packet new_Packet) = 0"
    by (simp add: new_Packet_def slen_def)
  show ?thesis
    using Parse_needs_nonempty_packet [OF a b, of "[]"] a b by blast
qed

text \<open>
  Claim C4. On a non-empty packet slice \<open>Parse\<close> takes the top nibble of byte 0 as
  the version. Version 4 needs at least 20 bytes and sets \<open>Src\<close> to
  \<open>packet[12:16]\<close>, \<open>Dst\<close> to \<open>packet[16:20]\<close> and \<open>IsIPv6\<close> to false; version 6
  needs at least 40 bytes and sets \<open>Src\<close> to \<open>packet[8:24]\<close>, \<open>Dst\<close> to
  \<open>packet[24:40]\<close> and \<open>IsIPv6\<close> to true; any other version fails. A packet of
  exactly one byte is always rejected.
\<close>

theorem Parse_by_version:
  assumes "Packet data = Some pk" and "0 < len pk" and "len pk \<le> cap pk"
  shows "Parse data =
     (let version = drop_bit 4 (Buffer data ! base pk) in
      if version = 4 then
        if len pk < 20 then Inr (False, data)
        else Inr (True, data\<lparr>Src := Some \<lparr>base = base pk + 12, len = 4, cap = cap pk - 12\<rparr>,
                              Dst := Some \<lparr>base = base pk + 16, len = 4, cap = cap pk - 16\<rparr>,
                              IsIPv6 := False\<rparr>)
      else if version = 6 then
        if len pk < 40 then Inr (False, data)
        else Inr (True, data\<lparr>Src := Some \<lparr>base = base pk + 8, len = 16, cap = cap pk - 8\<rparr>,
                              Dst := Some \<lparr>base = base pk + 24, len = 16, cap = cap pk - 24\<rparr>,
                              IsIPv6 := True\<rparr>)
      else Inr (False, data))
     \<and> (len pk = 1 \<longrightarrow> Parse data = Inr (False, data))"
  using assms
  by (simp add: Parse_def slice_index_def slice_range_def slen_def scap_def sbase_def
      vpn_consts Let_def)

theorem Parse_by_version_witness:
  "Parse (packet_of tcp_syn) =
     Inr (True, (packet_of tcp_syn)
       \<lparr>Src := Some \<lparr>base = 16, len = 4, cap = 6984\<rparr>,
        Dst := Some \<lparr>base = 20, len = 4, cap = 6980\<rparr>, IsIPv6 := False\<rparr>)
   \<and> Parse (packet_of [0x45]) = Inr (False, packet_of [0x45])"
proof -
  have a: "Packet (packet_of tcp_syn) = Some \<lparr>base = 4, len = 40, cap = 6996\<rparr>"
    by (simp add: packet_of_view tcp_syn_def)
  have v: "Buffer (packet_of tcp_syn) ! 4 = 0x45"
    using packet_of_nth [of 0 tcp_syn] by (simp add: tcp_syn_def)
  have b: "Packet (packet_of [0x45]) = Some \<lparr>base = 4, len = 1, cap = 6996\<rparr>"
    by (simp add: packet_of_view)
  have w: "Buffer (packet_of [0x45]) ! 4 = 0x45"
    using packet_of_nth [of 0 "[0x45]"] by simp
  show ?thesis
    using Parse_by_version [OF a] Parse_by_version [OF b] by (simp add: v w)
qed

section \<open>Stream counters\<close>

lemma notify_counts:
  "notify p n =
     \<lparr>openedStreams = openedStreams p + of_nat (opened [n]) - of_nat (closed [n]),
      totalStreamsInbound = totalStreamsInbound p + of_nat (opened_dir DirInbound [n]),
      totalStreamsOutbound = totalStreamsOutbound p + of_nat (opened_dir DirOutbound [n])\<rparr>"
proof (cases n)
  case (OpenedStream s)
  show ?thesis
  proof (cases s)
    case None
    with OpenedStream show ?thesis
      by (simp add: opened_def closed_def opened_dir_def)
  next
    case (Some d)
    with OpenedStream show ?thesis
      by (cases d) (simp_all add: opened_def closed_def opened_dir_def)
  qed
next
  case ClosedStream
  then show ?thesis
    by (simp add: opened_def closed_def opened_dir_def)
qed

lemma foldl_notify_counts:
  "foldl notify p ns =
     \<lparr>openedStreams = openedStreams p + of_nat (opened ns) - of_nat (closed ns),
      totalStreamsInbound = totalStreamsInbound p + of_nat (opened_dir DirInbound ns),
      totalStreamsOutbound = totalStreamsOutbound p + of_nat (opened_dir DirOutbound ns)\<rparr>"
proof (induction ns arbitrary: p)
  case Nil
  show ?case
    by (simp add: opened_def closed_def opened_dir_def)
next
  case (Cons n ns)
  have "foldl notify p (n # ns) = foldl notify (notify p n) ns"
    by simp
  also have "\<dots> =
     \<lparr>openedStreams = openedStreams (notify p n) + of_nat (opened ns) - of_nat (closed ns),
      totalStreamsInbound = totalStreamsInbound (notify p n) + of_nat (opened_dir DirInbound ns),
      totalStreamsOutbound = totalStreamsOutbound (notify p n) + of_nat (opened_dir DirOutbound ns)\<rparr>"
    by (rule Cons.IH)
  also have "\<dots> =
     \<lparr>openedStreams = openedStreams p + of_nat (opened (n # ns)) - of_nat (closed (n # ns)),
      totalStreamsInbound = totalStreamsInbound p + of_nat (opened_dir DirInbound (n # ns)),
      totalStreamsOutbound = totalStreamsOutbound p + of_nat (opened_dir DirOutbound (n # ns))\<rparr>"
    by (subst (1 2 3) notify_counts) (simp add: opened_def closed_def opened_dir_def)
  finally show ?case .
qed

lemma sint_small:
  fixes k :: int
  assumes "- (2 ^ 63) \<le> k" and "k < 2 ^ 63"
  shows "sint (word_of_int k :: int64) = k"
proof -
  have "0 \<le> k + 2 ^ 63" and "k + 2 ^ 63 < 2 ^ 64"
    using assms by simp_all
  then have "(k + 2 ^ 63) mod 2 ^ 64 = k + 2 ^ 63"
    by simp
  then show ?thesis
    by (simp add: int_word_sint)
qed

lemma counts_le_length:
  "opened ns + closed ns \<le> length ns"
  "opened_dir DirInbound ns + opened_dir DirOutbound ns \<le> opened ns"
proof -
  show "opened ns + closed ns \<le> length ns"
    unfolding opened_def closed_def
  proof (induction ns)
    case Nil show ?case by simp
  next
    case (Cons n ns)
    then show ?case by (cases n rule: is_opened.cases) auto
  qed
  show "opened_dir DirInbound ns + opened_dir DirOutbound ns \<le> opened ns"
    unfolding opened_def opened_dir_def
  proof (induction ns)
    case Nil show ?case by simp
  next
    case (Cons n ns)
    then show ?case by (cases n rule: is_opened.cases) auto
  qed
qed

lemma directed_counts:
  "list_all directed ns \<Longrightarrow> opened ns = opened_dir DirInbound ns + opened_dir DirOutbound ns"
  unfolding opened_def opened_dir_def
proof (induction ns)
  case Nil show ?case by simp
next
  case (Cons n ns)
  show ?case
  proof (cases n)
    case (OpenedStream s)
    show ?thesis
    proof (cases s)
      case None
      with OpenedStream Cons show ?thesis by simp
    next
      case (Some d)
      with OpenedStream Cons show ?thesis by (cases d) (simp_all add: directed_def)
    qed
  next
    case ClosedStream
    with Cons show ?thesis by simp
  qed
qed

lemma bracketed_counts:
  "bracketed k ns \<Longrightarrow> closed ns \<le> k + opened ns"
  by (induction k ns rule: bracketed.induct) (auto simp: opened_def closed_def)

lemma opened_dir_append:
  "opened_dir d (ns @ ms) = opened_dir d ns + opened_dir d ms"
  by (simp add: opened_dir_def)

lemma counters_int:
  assumes "length ns < 2 ^ 63"
  shows "OpenStreamsCount (notify_all ns) = int (opened ns) - int (closed ns)"
    and "TotalStreamsInbound (notify_all ns) = int (opened_dir DirInbound ns)"
    and "TotalStreamsOutbound (notify_all ns) = int (opened_dir DirOutbound ns)"
proof -
  have "int (length ns) < int (2 ^ 63)"
    using assms by (simp only: of_nat_less_iff)
  then have a: "int (length ns) < 2 ^ 63"
    by simp
  have "int (opened ns + closed ns) \<le> int (length ns)"
    using counts_le_length(1) [of ns] by (simp only: of_nat_le_iff)
  then have b: "int (opened ns) + int (closed ns) < 2 ^ 63"
    using a by simp
  have c: "int (opened_dir DirInbound ns) + int (opened_dir DirOutbound ns) < 2 ^ 63"
    using counts_le_length(2) [of ns] b by linarith
  have o: "openedStreams (notify_all ns) = word_of_int (int (opened ns) - int (closed ns))"
    by (simp add: notify_all_def foldl_notify_counts zero_counters_def)
  have "- (2 ^ 63) \<le> int (opened ns) - int (closed ns)"
    and "int (opened ns) - int (closed ns) < 2 ^ 63"
    using b by simp_all
  then show "OpenStreamsCount (notify_all ns) = int (opened ns) - int (closed ns)"
    unfolding OpenStreamsCount_def o by (rule sint_small)
  have i: "totalStreamsInbound (notify_all ns) = word_of_int (int (opened_dir DirInbound ns))"
    by (simp add: notify_all_def foldl_notify_counts zero_counters_def)
  have "- (2 ^ 63) \<le> int (opened_dir DirInbound ns)"
    and "int (opened_dir DirInbound ns) < 2 ^ 63"
    using c by simp_all
  then show "TotalStreamsInbound (notify_all ns) = int (opened_dir DirInbound ns)"
    unfolding TotalStreamsInbound_def i by (rule sint_small)
  have u: "totalStreamsOutbound (notify_all ns) = word_of_int (int (opened_dir DirOutbound ns))"
    by (simp add: notify_all_def foldl_notify_counts zero_counters_def)
  have "- (2 ^ 63) \<le> int (opened_dir DirOutbound ns)"
    and "int (opened_dir DirOutbound ns) < 2 ^ 63"
    using c by simp_all
  then show "TotalStreamsOutbound (notify_all ns) = int (opened_dir DirOutbound ns)"
    unfolding TotalStreamsOutbound_def u by (rule sint_small)
qed

text \<open>
  Claim C7, as the code has it. From all counters zero, and as long as fewer than
  \<open>2 ^ 63\<close> notifications have been delivered (no \<open>int64\<close> counter has wrapped):
  the open-stream count is non-negative after every well-bracketed trace; it is at
  most the sum of the two totals after every trace whose opened streams are all
  inbound or outbound; and both totals never decrease when the trace is extended.
\<close>

theorem stream_counters:
  assumes "length (ns @ ms) < 2 ^ 63"
  shows "(bracketed 0 ns \<longrightarrow> 0 \<le> OpenStreamsCount (notify_all ns))
       \<and> (list_all directed ns \<longrightarrow>
            OpenStreamsCount (notify_all ns)
              \<le> TotalStreamsInbound (notify_all ns) + TotalStreamsOutbound (notify_all ns))
       \<and> TotalStreamsInbound (notify_all ns) \<le> TotalStreamsInbound (notify_all (ns @ ms))
       \<and> TotalStreamsOutbound (notify_all ns) \<le> TotalStreamsOutbound (notify_all (ns @ ms))"
proof -
  have short: "length ns < 2 ^ 63"
    using assms by simp
  note here = counters_int [OF short]
  note later = counters_int [OF assms]
  have "bracketed 0 ns \<longrightarrow> 0 \<le> OpenStreamsCount (notify_all ns)"
    using bracketed_counts [of 0 ns] by (auto simp: here)
  moreover have "list_all directed ns \<longrightarrow>
      OpenStreamsCount (notify_all ns)
        \<le> TotalStreamsInbound (notify_all ns) + TotalStreamsOutbound (notify_all ns)"
    using directed_counts [of ns] by (auto simp: here)
  moreover have "TotalStreamsInbound (notify_all ns) \<le> TotalStreamsInbound (notify_all (ns @ ms))"
    by (simp add: here later opened_dir_append)
  moreover have "TotalStreamsOutbound (notify_all ns) \<le> TotalStreamsOutbound (notify_all (ns @ ms))"
    by (simp add: here later opened_dir_append)
  ultimately show ?thesis
    by blast
qed

text \<open>
  As the claim states it, for every trace of notifications, it fails: a
  \<open>ClosedStream\<close> that answers no counted \<open>OpenedStream\<close> drives the open count
  to \<open>-1\<close>, and a stream of unknown direction is counted as open but in neither
  total.
\<close>

theorem stream_counters_counterexample:
  "OpenStreamsCount (notify_all [ClosedStream]) = - 1
   \<and> OpenStreamsCount (notify_all [OpenedStream (Some DirUnknown)]) = 1
   \<and> TotalStreamsInbound (notify_all [OpenedStream (Some DirUnknown)]) = 0
   \<and> TotalStreamsOutbound (notify_all [OpenedStream (Some DirUnknown)]) = 0"
  by (simp add: notify_all_def zero_counters_def OpenStreamsCount_def
      TotalStreamsInbound_def TotalStreamsOutbound_def)

theorem stream_counters_witness:
  "0 \<le> OpenStreamsCount (notify_all [OpenedStream (Some DirInbound), ClosedStream])
   \<and> OpenStreamsCount (notify_all [OpenedStream (Some DirInbound), ClosedStream])
       \<le> TotalStreamsInbound (notify_all [OpenedStream (Some DirInbound), ClosedStream])
         + TotalStreamsOutbound (notify_all [OpenedStream (Some DirInbound), ClosedStream])
   \<and> TotalStreamsInbound (notify_all [OpenedStream (Some DirInbound), ClosedStream])
       \<le> TotalStreamsInbound (notify_all
            ([OpenedStream (Some DirInbound), ClosedStream] @ [OpenedStream (Some DirOutbound)]))"
proof -
  have a: "length ([OpenedStream (Some DirInbound), ClosedStream] @ [OpenedStream (Some DirOutbound)])
             < 2 ^ 63"
    by simp
  have b: "bracketed 0 [OpenedStream (Some DirInbound), ClosedStream]"
    by simp
  have c: "list_all directed [OpenedStream (Some DirInbound), ClosedStream]"
    by (simp add: directed_def)
  show ?thesis
    using stream_counters [OF a] b c by blast
qed

section \<open>Bootstrap\<close>

lemma dial_mem:
  "a \<in> set (dial (k, r)) \<longleftrightarrow>
     a = Connect k \<or> (r = ConnectError \<and> a = Warn_connect k)
       \<or> (r = Connected \<and> a = Info_connected k)"
  by (cases r) auto

lemma take_drop_set:
  assumes "i < length xs"
  shows "insert (xs ! i) (set (take i xs @ drop (Suc i) xs)) = set xs"
proof -
  have "set xs = set (take i xs @ xs ! i # drop (Suc i) xs)"
    using id_take_nth_drop [OF assms] by simp
  then show ?thesis
    by auto
qed

lemma wait_group_set:
  "set (wait_group sched gs) = (\<Union>g\<in>set gs. set (dial g))"
proof (induction sched gs rule: wait_group.induct)
  case (1 sched)
  show ?case by simp
next
  case (2 g gs)
  then show ?case by simp
next
  case (3 k sched g gs)
  let ?i = "k mod length (g # gs)"
  have i: "?i < length (g # gs)"
    by simp
  have "set (wait_group (k # sched) (g # gs)) =
        set (dial ((g # gs) ! ?i))
          \<union> (\<Union>h\<in>set (take ?i (g # gs) @ drop (Suc ?i) (g # gs)). set (dial h))"
    using 3 by (simp add: Let_def)
  also have "\<dots> = (\<Union>h\<in>insert ((g # gs) ! ?i)
                        (set (take ?i (g # gs) @ drop (Suc ?i) (g # gs))). set (dial h))"
    by simp
  also have "\<dots> = (\<Union>h\<in>set (g # gs). set (dial h))"
    by (simp only: take_drop_set [OF i])
  finally show ?case .
qed

lemma spawn_started:
  "(k, r) \<in> set (snd (spawn i ps)) \<longleftrightarrow> Parsed k r \<in> set ps"
  by (induction i ps rule: spawn.induct) (auto simp: case_prod_beta)

lemma spawn_warns:
  "set (fst (spawn i ps)) = {Warn_invalid_addr (i + j) | j. j < length ps \<and> ps ! j = Unparseable}"
proof (induction i ps rule: spawn.induct)
  case (1 i)
  show ?case by simp
next
  case (2 i ps)
  have "{Warn_invalid_addr (i + j) | j. j < length (Unparseable # ps) \<and> (Unparseable # ps) ! j = Unparseable}
        = insert (Warn_invalid_addr i) {Warn_invalid_addr (Suc i + j) | j. j < length ps \<and> ps ! j = Unparseable}"
    (is "?L = ?R")
  proof
    show "?L \<subseteq> ?R"
    proof
      fix a assume "a \<in> ?L"
      then obtain j where j: "a = Warn_invalid_addr (i + j)" "j < length (Unparseable # ps)"
          "(Unparseable # ps) ! j = Unparseable"
        by blast
      show "a \<in> ?R"
      proof (cases j)
        case 0
        with j show ?thesis by simp
      next
        case (Suc j')
        with j show ?thesis by auto
      qed
    qed
    show "?R \<subseteq> ?L"
    proof
      fix a assume "a \<in> ?R"
      then consider "a = Warn_invalid_addr i"
        | j where "a = Warn_invalid_addr (Suc i + j)" "j < length ps" "ps ! j = Unparseable"
        by blast
      then show "a \<in> ?L"
      proof cases
        case 1
        then have "a = Warn_invalid_addr (i + 0) \<and> 0 < length (Unparseable # ps)
                     \<and> (Unparseable # ps) ! 0 = Unparseable"
          by simp
        then show ?thesis by blast
      next
        case 2
        then have "a = Warn_invalid_addr (i + Suc j) \<and> Suc j < length (Unparseable # ps)
                     \<and> (Unparseable # ps) ! Suc j = Unparseable"
          by simp
        then show ?thesis by blast
      qed
    qed
  qed
  with 2 show ?case
    by (simp add: case_prod_beta)
next
  case (3 i peerInfo r ps)
  have "{Warn_invalid_addr (i + j) | j. j < length (Parsed peerInfo r # ps) \<and> (Parsed peerInfo r # ps) ! j = Unparseable}
        = {Warn_invalid_addr (Suc i + j) | j. j < length ps \<and> ps ! j = Unparseable}"
    (is "?L = ?R")
  proof
    show "?L \<subseteq> ?R"
    proof
      fix a assume "a \<in> ?L"
      then obtain j where j: "a = Warn_invalid_addr (i + j)" "j < length (Parsed peerInfo r # ps)"
          "(Parsed peerInfo r # ps) ! j = Unparseable"
        by blast
      show "a \<in> ?R"
      proof (cases j)
        case 0
        with j show ?thesis by simp
      next
        case (Suc j')
        with j show ?thesis by auto
      qed
    qed
    show "?R \<subseteq> ?L"
    proof
      fix a assume "a \<in> ?R"
      then obtain j where "a = Warn_invalid_addr (Suc i + j)" "j < length ps" "ps ! j = Unparseable"
        by blast
      then have "a = Warn_invalid_addr (i + Suc j) \<and> Suc j < length (Parsed peerInfo r # ps)
                     \<and> (Parsed peerInfo r # ps) ! Suc j = Unparseable"
        by simp
      then show "a \<in> ?L" by blast
    qed
  qed
  with 3 show ?case
    by (simp add: case_prod_beta)
qed

text \<open>
  Claim C8. \<open>Bootstrap\<close> returns an error exactly when \<open>dht.Bootstrap\<close> fails, and
  then it is that error behind the prefix \<open>bootstrap dht: \<close>. Whatever the order in
  which the dial goroutines run, the trace ends with the DHT bootstrap, which is
  invoked once and after every dial: each parseable address is dialled before it, a
  dial is logged as a warning exactly when it failed with an error other than
  cancellation and at info exactly when it succeeded (a cancelled dial leaves no log
  line), and an address is reported as invalid exactly when it does not parse, in
  which case it is not dialled.
\<close>

theorem Bootstrap_result:
  "(fst (Bootstrap sched ps dht) = None \<longleftrightarrow> dht = None)
   \<and> (\<forall>e. dht = Some e \<longrightarrow> fst (Bootstrap sched ps dht) = Some (''bootstrap dht: '' @ e))
   \<and> (\<exists>pre. snd (Bootstrap sched ps dht) = pre @ [Info_all_connected, DhtBootstrap]
         \<and> DhtBootstrap \<notin> set pre
         \<and> (\<forall>k. Connect k \<in> set pre \<longleftrightarrow> (\<exists>r. Parsed k r \<in> set ps))
         \<and> (\<forall>k. Warn_connect k \<in> set pre \<longleftrightarrow> Parsed k ConnectError \<in> set ps)
         \<and> (\<forall>k. Info_connected k \<in> set pre \<longleftrightarrow> Parsed k Connected \<in> set ps)
         \<and> (\<forall>i. Warn_invalid_addr i \<in> set pre \<longleftrightarrow> i < length ps \<and> ps ! i = Unparseable))"
proof -
  obtain warns started where sp: "spawn 0 ps = (warns, started)"
    by (cases "spawn 0 ps")
  define pre where "pre = [Debug_bootstrapping] @ warns @ wait_group sched started"
  have started: "\<And>k r. (k, r) \<in> set started \<longleftrightarrow> Parsed k r \<in> set ps"
    using spawn_started [of _ _ 0 ps] by (simp add: sp)
  have warns: "set warns = {Warn_invalid_addr j | j. j < length ps \<and> ps ! j = Unparseable}"
    using spawn_warns [of 0 ps] by (simp add: sp)
  have wg: "set (wait_group sched started) = (\<Union>g\<in>set started. set (dial g))"
    by (rule wait_group_set)
  have tr: "snd (Bootstrap sched ps dht) = pre @ [Info_all_connected, DhtBootstrap]"
    by (cases dht) (simp_all add: Bootstrap_def sp pre_def)
  have r1: "fst (Bootstrap sched ps dht) = None \<longleftrightarrow> dht = None"
    by (cases dht) (simp_all add: Bootstrap_def sp)
  have r2: "\<forall>e. dht = Some e \<longrightarrow> fst (Bootstrap sched ps dht) = Some (''bootstrap dht: '' @ e)"
    by (simp add: Bootstrap_def sp)
  have mem: "a \<in> set pre \<longleftrightarrow>
       a = Debug_bootstrapping \<or> a \<in> set warns
         \<or> (\<exists>k r. Parsed k r \<in> set ps \<and> a \<in> set (dial (k, r)))" for a
  proof -
    have "a \<in> set pre \<longleftrightarrow>
       a = Debug_bootstrapping \<or> a \<in> set warns
         \<or> (\<exists>k r. (k, r) \<in> set started \<and> a \<in> set (dial (k, r)))"
      by (auto simp: pre_def wg)
    then show ?thesis
      by (simp only: started)
  qed
  have p1: "DhtBootstrap \<notin> set pre"
    by (auto simp: mem warns dial_mem)
  have p2: "\<forall>k. Connect k \<in> set pre \<longleftrightarrow> (\<exists>r. Parsed k r \<in> set ps)"
    by (simp add: mem warns dial_mem)
  have p3: "\<forall>k. Warn_connect k \<in> set pre \<longleftrightarrow> Parsed k ConnectError \<in> set ps"
    by (simp add: mem warns dial_mem)
  have p4: "\<forall>k. Info_connected k \<in> set pre \<longleftrightarrow> Parsed k Connected \<in> set ps"
    by (simp add: mem warns dial_mem)
  have p5: "\<forall>i. Warn_invalid_addr i \<in> set pre \<longleftrightarrow> i < length ps \<and> ps ! i = Unparseable"
    by (simp add: mem warns dial_mem)
  show ?thesis
    using r1 r2 tr p1 p2 p3 p4 p5 by blast
qed

theorem Bootstrap_result_witness:
  "Bootstrap [1] [Unparseable, Parsed 1 ConnectError, Parsed 2 Connected, Parsed 3 Canceled] None =
     (None, [Debug_bootstrapping, Warn_invalid_addr 0, Connect 2, Info_connected 2,
             Connect 1, Warn_connect 1, Connect 3, Info_all_connected, DhtBootstrap])
   \<and> fst (Bootstrap [1] [Unparseable, Parsed 1 ConnectError, Parsed 2 Connected, Parsed 3 Canceled]
        (Some ''no peers'')) = Some ''bootstrap dht: no peers''"
  using Bootstrap_result [of "[1]" "[Unparseable, Parsed 1 ConnectError, Parsed 2 Connected, Parsed 3 Canceled]" "Some ''no peers''"]
  by (simp add: Bootstrap_def)

section \<open>The packet pool\<close>

lemma clean_clear: "clean (clear p)"
  by (simp add: clean_def clear_def)

lemma clean_new_Packet: "zero_initialized new_Packet"
  by (simp add: zero_initialized_def clean_def new_Packet_def list_all_length)

lemma pool_step_clean:
  assumes "list_all clean (outboundDataPool (fst s))"
  shows "list_all clean (outboundDataPool (fst (pool_step s op)))"
proof (cases s)
  case (Pair d held)
  with assms have pool: "list_all clean (outboundDataPool d)"
    by simp
  show ?thesis
  proof (cases op)
    case Get
    with Pair pool show ?thesis
      by (cases "outboundDataPool d") (simp_all add: GetTempPacket_def)
  next
    case (Put i)
    with Pair pool show ?thesis
      by (simp add: PutTempPacket_def clean_clear)
  next
    case (Use i p)
    with Pair pool show ?thesis
      by simp
  next
    case Forget
    with Pair pool show ?thesis
      by (cases "outboundDataPool d") simp_all
  qed
qed

lemma foldl_pool_step_clean:
  "list_all clean (outboundDataPool (fst s)) \<Longrightarrow>
   list_all clean (outboundDataPool (fst (foldl pool_step s ops)))"
  by (induction ops arbitrary: s) (simp_all add: pool_step_clean)

lemma GetTempPacket_clean:
  assumes "list_all clean (outboundDataPool d)"
  shows "clean (fst (GetTempPacket d))"
    and "outboundDataPool d = [] \<Longrightarrow> zero_initialized (fst (GetTempPacket d))"
  using assms clean_new_Packet
  by (cases "outboundDataPool d"; simp add: GetTempPacket_def zero_initialized_def)+

text \<open>
  Claim C9, as the code has it. Whatever the clients do with the buffers they hold
  and in whatever order buffers are checked out and in, every pooled buffer is clean
  (no packet view, no \<open>Src\<close> or \<open>Dst\<close> view, \<open>IsIPv6\<close> false), so every buffer
  checked out is clean and every buffer is clean once checked in; a buffer handed out
  while the pool is empty is newly allocated and all zero.
\<close>

theorem pool_buffers_clean:
  assumes "list_all clean (outboundDataPool d)"
  shows "list_all clean (outboundDataPool (fst (pool_run d ops)))
       \<and> clean (fst (GetTempPacket (fst (pool_run d ops))))
       \<and> (outboundDataPool (fst (pool_run d ops)) = [] \<longrightarrow>
            zero_initialized (fst (GetTempPacket (fst (pool_run d ops)))))
       \<and> list_all clean (outboundDataPool (PutTempPacket (fst (pool_run d ops)) p))"
proof -
  have inv: "list_all clean (outboundDataPool (fst (pool_run d ops)))"
    unfolding pool_run_def using assms by (intro foldl_pool_step_clean) simp
  then have "list_all clean (outboundDataPool (PutTempPacket (fst (pool_run d ops)) p))"
    by (simp add: PutTempPacket_def clean_clear)
  with inv GetTempPacket_clean [OF inv] show ?thesis
    by blast
qed

text \<open>
  A reused buffer is not zero-initialized: \<open>clear\<close> drops the views and leaves the
  array as it is, so the next check-out returns the bytes of the last packet.
\<close>

theorem pool_buffers_clean_counterexample:
  "\<not> zero_initialized
       (fst (GetTempPacket
          (fst (pool_run example_device [Get, Use 0 (packet_of tcp_syn), Put 0]))))"
proof -
  have len: "length (Buffer (packet_of tcp_syn)) = maxContentSize"
    by (rule length_packet_of) (simp add: tcp_syn_def)
  have run: "fst (GetTempPacket
          (fst (pool_run example_device [Get, Use 0 (packet_of tcp_syn), Put 0])))
        = clear (packet_of tcp_syn)"
    by (simp add: pool_run_def example_device_def GetTempPacket_def PutTempPacket_def len)
  have "Buffer (clear (packet_of tcp_syn)) ! 4 = 0x45"
    using packet_of_nth [of 0 tcp_syn] by (simp add: clear_def tcp_syn_def)
  moreover have "4 < length (Buffer (clear (packet_of tcp_syn)))"
    using len by (simp add: clear_def vpn_consts)
  ultimately have "\<not> list_all (\<lambda>b. b = 0) (Buffer (clear (packet_of tcp_syn)))"
  proof -
    assume at: "Buffer (clear (packet_of tcp_syn)) ! 4 = 0x45"
      and inside: "4 < length (Buffer (clear (packet_of tcp_syn)))"
    show ?thesis
    proof
      assume "list_all (\<lambda>b. b = 0) (Buffer (clear (packet_of tcp_syn)))"
      then have "Buffer (clear (packet_of tcp_syn)) ! 4 = 0"
        using inside by (simp only: list_all_length)
      with at show False
        by simp
    qed
  qed
  then show ?thesis
    by (simp add: run zero_initialized_def)
qed

theorem pool_buffers_clean_witness:
  "clean (fst (GetTempPacket
          (fst (pool_run example_device [Get, Use 0 (packet_of tcp_syn), Put 0]))))"
proof -
  have "list_all clean (outboundDataPool example_device)"
    by (simp add: example_device_def)
  from pool_buffers_clean [OF this] show ?thesis
    by blast
qed

section \<open>The TUN packet reader\<close>

lemma acquire_buffer:
  assumes "(case data of None \<Rightarrow> GetTempPacket d | Some p \<Rightarrow> (clear p, d)) = (data1, d1)"
      and "list_all array_sized (outboundDataPool d)"
      and "case data of None \<Rightarrow> True | Some p \<Rightarrow> array_sized p"
  shows "array_sized data1 \<and> list_all array_sized (outboundDataPool d1)
       \<and> outboundCh d1 = outboundCh d"
proof (cases data)
  case None
  with assms show ?thesis
    by (cases "outboundDataPool d")
       (auto simp: GetTempPacket_def array_sized_def new_Packet_def)
next
  case (Some p)
  with assms show ?thesis
    by (auto simp: array_sized_def clear_def)
qed

lemma length_copy_into:
  assumes "sbase dst + slen dst \<le> length buf"
  shows "length (copy_into buf dst src) = length buf"
  using assms by (auto simp: copy_into_def Let_def min_def)

lemma reader_target:
  assumes "array_sized data1"
  shows "slice_from (whole (Buffer data1)) tunPacketOffset =
           Inr (Some \<lparr>base = tunPacketOffset, len = maxContentSize - tunPacketOffset,
                       cap = maxContentSize - tunPacketOffset\<rparr>)"
  using assms
  by (simp add: array_sized_def slice_from_def slice_range_def whole_def slen_def scap_def
      vpn_consts)

lemma reader_fill:
  assumes "array_sized data1"
  shows "array_sized (data1\<lparr>Buffer := copy_into (Buffer data1)
            (Some \<lparr>base = tunPacketOffset, len = maxContentSize - tunPacketOffset,
                    cap = maxContentSize - tunPacketOffset\<rparr>) payload\<rparr>)"
proof -
  have "length (copy_into (Buffer data1)
            (Some \<lparr>base = tunPacketOffset, len = maxContentSize - tunPacketOffset,
                    cap = maxContentSize - tunPacketOffset\<rparr>) payload) = length (Buffer data1)"
    using assms
    by (intro length_copy_into) (simp add: array_sized_def sbase_def slen_def vpn_consts)
  with assms show ?thesis
    by (simp add: array_sized_def)
qed

lemma reader_view:
  assumes "array_sized data2"
      and "slice_range (whole (Buffer data2)) tunPacketOffset (n + tunPacketOffset) = Inr pk"
  shows "pk = Some \<lparr>base = tunPacketOffset, len = n, cap = maxContentSize - tunPacketOffset\<rparr>
       \<and> n + tunPacketOffset \<le> maxContentSize"
  using assms
  by (auto simp: array_sized_def slice_range_def whole_def scap_def split: if_splits)

lemma parsed_well_emitted:
  assumes "array_sized data2"
      and "0 < n" and "n \<le> maxContentSize" and "n + tunPacketOffset \<le> maxContentSize"
      and "Parse (data2\<lparr>Packet := Some \<lparr>base = tunPacketOffset, len = n,
                             cap = maxContentSize - tunPacketOffset\<rparr>\<rparr>) = Inr (True, data3)"
  shows "well_emitted data3"
proof -
  let ?pk = "Some \<lparr>base = tunPacketOffset, len = n, cap = maxContentSize - tunPacketOffset\<rparr>"
  note P = Parse_Inr_True [OF assms(5)]
  have pk: "Packet data3 = ?pk" and buf: "Buffer data3 = Buffer data2"
    and again: "Parse data3 = Inr (True, data3)"
    using P by simp_all
  have v4: "slen (Src data3) = 4 \<and> slen (Dst data3) = 4
          \<and> inside (Src data3) (Packet data3) \<and> inside (Dst data3) (Packet data3)
          \<and> sbase (Src data3) = sbase (Packet data3) + 12
          \<and> sbase (Dst data3) = sbase (Packet data3) + 16"
    if "\<not> IsIPv6 data3"
  proof -
    from P that have long: "20 \<le> n"
      and src: "slice_range ?pk 12 16 = Inr (Src data3)"
      and dst: "slice_range ?pk 16 20 = Inr (Dst data3)"
      by (simp_all add: slen_def)
    from src have "Src data3 = Some \<lparr>base = tunPacketOffset + 12, len = 4,
                                      cap = maxContentSize - tunPacketOffset - 12\<rparr>"
      by (auto simp: slice_range_def scap_def split: if_splits)
    moreover from dst have "Dst data3 = Some \<lparr>base = tunPacketOffset + 16, len = 4,
                                      cap = maxContentSize - tunPacketOffset - 16\<rparr>"
      by (auto simp: slice_range_def scap_def split: if_splits)
    ultimately show ?thesis
      using long by (simp add: pk inside_def slen_def sbase_def)
  qed
  show ?thesis
    unfolding well_emitted_def
    using assms(1-4) v4 again by (simp add: pk buf slen_def array_sized_def add.commute)
qed

lemma reader_invariant:
  assumes "tunPacketsReader rs data d = Inr d'"
      and "list_all array_sized (outboundDataPool d)"
      and "case data of None \<Rightarrow> True | Some p \<Rightarrow> array_sized p"
      and "list_all well_emitted (outboundCh d)"
  shows "list_all well_emitted (outboundCh d')"
  using assms
proof (induction rs arbitrary: data d)
  case Nil
  then show ?case
    by (cases data; cases "outboundDataPool d") (auto simp: GetTempPacket_def)
next
  case (Cons r rs)
  obtain data1 d1 where
    acq: "(case data of None \<Rightarrow> GetTempPacket d | Some p \<Rightarrow> (clear p, d)) = (data1, d1)"
    by (cases "case data of None \<Rightarrow> GetTempPacket d | Some p \<Rightarrow> (clear p, d)")
  from acquire_buffer [OF acq Cons.prems(2,3)]
  have sized1: "array_sized data1" and pool1: "list_all array_sized (outboundDataPool d1)"
    and ch1: "outboundCh d1 = outboundCh d"
    by simp_all
  show ?case
  proof (cases r)
    case TunEOF
    with Cons.prems(1,4) acq ch1 show ?thesis
      by simp
  next
    case TunError
    with Cons.prems(1,4) acq ch1 show ?thesis
      by simp
  next
    case (TunData n payload)
    let ?target = "Some \<lparr>base = tunPacketOffset, len = maxContentSize - tunPacketOffset,
                           cap = maxContentSize - tunPacketOffset\<rparr>"
    let ?data2 = "data1\<lparr>Buffer := copy_into (Buffer data1) ?target payload\<rparr>"
    have sized2: "array_sized ?data2"
      using sized1 by (rule reader_fill)
    have run: "(if n = 0 \<or> n > maxContentSize then tunPacketsReader rs (Some ?data2) d1
               else
                 (case slice_range (whole (Buffer ?data2)) tunPacketOffset (n + tunPacketOffset) of
                    Inl e \<Rightarrow> Inl e
                  | Inr pk \<Rightarrow>
                      (case Parse (?data2\<lparr>Packet := pk\<rparr>) of
                         Inl e \<Rightarrow> Inl e
                       | Inr (okay, data) \<Rightarrow>
                           if \<not> okay then tunPacketsReader rs (Some data) d1
                           else tunPacketsReader rs None
                                  (d1\<lparr>outboundCh := outboundCh d1 @ [data]\<rparr>)))) = Inr d'"
      using Cons.prems(1) TunData acq reader_target [OF sized1]
      by (simp add: Let_def)
    show ?thesis
    proof (cases "n = 0 \<or> n > maxContentSize")
      case True
      with run have "tunPacketsReader rs (Some ?data2) d1 = Inr d'"
        by simp
      from Cons.IH [OF this] pool1 sized2 Cons.prems(4) ch1 show ?thesis
        by simp
    next
      case False
      with run obtain pk okay data3 where
        view: "slice_range (whole (Buffer ?data2)) tunPacketOffset (n + tunPacketOffset) = Inr pk"
        and parse: "Parse (?data2\<lparr>Packet := pk\<rparr>) = Inr (okay, data3)"
        and rest: "(if \<not> okay then tunPacketsReader rs (Some data3) d1
                    else tunPacketsReader rs None (d1\<lparr>outboundCh := outboundCh d1 @ [data3]\<rparr>))
                   = Inr d'"
        by (auto split: sum.splits)
      from reader_view [OF sized2 view]
      have pk: "pk = Some \<lparr>base = tunPacketOffset, len = n,
                            cap = maxContentSize - tunPacketOffset\<rparr>"
        and fits: "n + tunPacketOffset \<le> maxContentSize"
        by simp_all
      show ?thesis
      proof (cases okay)
        case False
        with parse have "data3 = ?data2\<lparr>Packet := pk\<rparr>"
          by (auto dest: Parse_Inr_False)
        with sized2 have "array_sized data3"
          by (simp add: array_sized_def)
        moreover from rest \<open>\<not> okay\<close> have "tunPacketsReader rs (Some data3) d1 = Inr d'"
          by simp
        ultimately show ?thesis
          using Cons.IH [of "Some data3" d1] pool1 Cons.prems(4) ch1 by simp
      next
        case True
        from \<open>\<not> (n = 0 \<or> n > maxContentSize)\<close> have "0 < n" "n \<le> maxContentSize"
          by simp_all
        with parse True pk fits sized2 have "well_emitted data3"
          by (intro parsed_well_emitted [of ?data2 n]) simp_all
        moreover from rest True
        have "tunPacketsReader rs None (d1\<lparr>outboundCh := outboundCh d1 @ [data3]\<rparr>) = Inr d'"
          by simp
        ultimately show ?thesis
          using Cons.IH [of None "d1\<lparr>outboundCh := outboundCh d1 @ [data3]\<rparr>"]
            pool1 Cons.prems(4) ch1 by simp
      qed
    qed
  qed
qed


lemma reader_rejects:
  assumes "tunPacketsReader rs data d = Inr d'"
      and "list_all rejected_size rs"
  shows "outboundCh d' = outboundCh d"
  using assms
proof (induction rs arbitrary: data d)
  case Nil
  then show ?case
    by (cases data; cases "outboundDataPool d") (auto simp: GetTempPacket_def)
next
  case (Cons r rs)
  obtain data1 d1 where
    acq: "(case data of None \<Rightarrow> GetTempPacket d | Some p \<Rightarrow> (clear p, d)) = (data1, d1)"
    by (cases "case data of None \<Rightarrow> GetTempPacket d | Some p \<Rightarrow> (clear p, d)")
  then have ch1: "outboundCh d1 = outboundCh d"
    by (cases data; cases "outboundDataPool d") (auto simp: GetTempPacket_def)
  show ?case
  proof (cases r)
    case TunEOF
    with Cons.prems(1) acq ch1 show ?thesis
      by simp
  next
    case TunError
    with Cons.prems(1) acq ch1 show ?thesis
      by simp
  next
    case (TunData n payload)
    with Cons.prems(2) have size: "n = 0 \<or> maxContentSize < n" and rest: "list_all rejected_size rs"
      by simp_all
    from Cons.prems(1) TunData acq size obtain data2 where
      "tunPacketsReader rs (Some data2) d1 = Inr d'"
      by (auto simp: Let_def split: sum.splits)
    from Cons.IH [OF this rest] ch1 show ?thesis
      by simp
  qed
qed

lemma reader_example_run:
  "\<exists>d'. tunPacketsReader [TunData 0 [], TunData 1 [0x45], TunData 40 tcp_syn, TunEOF]
           None example_device = Inr d' \<and> length (outboundCh d') = 1"
  by (simp add: example_device_def GetTempPacket_def new_Packet_def clear_def
      slice_from_def slice_range_def whole_def slen_def scap_def sbase_def copy_into_def
      Parse_def slice_index_def vpn_consts tcp_syn_def Let_def nth_append)

lemma reader_example_drop:
  "\<exists>d'. tunPacketsReader [TunData 0 [], TunData 7001 [], TunEOF] None example_device = Inr d'"
  by (simp add: example_device_def GetTempPacket_def new_Packet_def clear_def
      slice_from_def slice_range_def whole_def slen_def scap_def sbase_def copy_into_def
      vpn_consts Let_def)

text \<open>
  Claim C5. Whatever the TUN device delivers, every packet the reader has sent on
  the outbound channel has a size greater than 0 and at most \<open>maxContentSize\<close>, has
  \<open>Buffer[tunPacketOffset : tunPacketOffset + size]\<close> as its packet view and parses;
  if it is IPv4, \<open>Src\<close> and \<open>Dst\<close> are four-byte views inside the packet. Reads of
  size 0 or above \<open>maxContentSize\<close> send nothing. The pooled buffers and the
  reader's current buffer are arrays of \<open>maxContentSize\<close> bytes.
\<close>

theorem tunPacketsReader_emits:
  assumes "tunPacketsReader rs data d = Inr d'"
      and "list_all array_sized (outboundDataPool d)"
      and "case data of None \<Rightarrow> True | Some p \<Rightarrow> array_sized p"
      and "list_all well_emitted (outboundCh d)"
  shows "list_all well_emitted (outboundCh d')
       \<and> (list_all rejected_size rs \<longrightarrow> outboundCh d' = outboundCh d)"
  using reader_invariant [OF assms] reader_rejects [OF assms(1)] by blast
theorem tunPacketsReader_emits_witness:
  "(\<exists>d'. tunPacketsReader [TunData 0 [], TunData 1 [0x45], TunData 40 tcp_syn, TunEOF]
           None example_device = Inr d'
         \<and> length (outboundCh d') = 1 \<and> list_all well_emitted (outboundCh d'))
   \<and> (\<exists>d'. tunPacketsReader [TunData 0 [], TunData 7001 [], TunEOF] None example_device = Inr d'
         \<and> outboundCh d' = [])"
proof -
  have pool: "list_all array_sized (outboundDataPool example_device)"
    and ch: "list_all well_emitted (outboundCh example_device)"
    and none: "case None of None \<Rightarrow> True | Some p \<Rightarrow> array_sized p"
    by (simp_all add: example_device_def)
  obtain d1 where run1: "tunPacketsReader [TunData 0 [], TunData 1 [0x45], TunData 40 tcp_syn, TunEOF]
           None example_device = Inr d1" and one: "length (outboundCh d1) = 1"
    using reader_example_run by blast
  obtain d2 where run2: "tunPacketsReader [TunData 0 [], TunData 7001 [], TunEOF]
           None example_device = Inr d2"
    using reader_example_drop by blast
  have rej: "list_all rejected_size [TunData 0 [], TunData 7001 [], TunEOF]"
    by (simp add: vpn_consts)
  from tunPacketsReader_emits [OF run1 pool none ch] have "list_all well_emitted (outboundCh d1)"
    by blast
  moreover from tunPacketsReader_emits [OF run2 pool none ch] rej have "outboundCh d2 = []"
    by (simp add: example_device_def)
  ultimately show ?thesis
    using run1 one run2 by blast
qed

section \<open>The checksum functions against RFC 1071\<close>

lemma shl8_or_byte:
  fixes a b :: byte
  shows "(ucast b :: uint32) OR push_bit 8 (ucast a) = push_bit 8 (ucast a) + ucast b"
proof -
  have "\<not> bit (push_bit 8 (ucast a :: uint32)) n \<or> \<not> bit (ucast b :: uint32) n" for n
    by (auto simp: bit_simps dest: bit_imp_le_length)
  then have "push_bit 8 (ucast a :: uint32) + ucast b = push_bit 8 (ucast a) OR ucast b"
    by (rule disjunctive_add)
  then show ?thesis
    by (simp add: or.commute)
qed

lemma ucast_Uint16:
  "(ucast (Uint16 a b) :: uint32) = push_bit 8 (ucast a) + ucast b"
proof -
  have "(ucast (Uint16 a b) :: uint32) = ucast b OR push_bit 8 (ucast a)"
    unfolding Uint16_def
    by (rule bit_word_eqI) (auto simp: bit_simps dest: bit_imp_le_length)
  then show ?thesis
    by (simp only: shl8_or_byte)
qed


lemma be_word_of_nat:
  fixes a b :: byte
  shows "(of_nat (unat a * 256 + unat b) :: uint32) = push_bit 8 (ucast a) + ucast b"
  by (simp add: push_bit_eq_mult)

lemma drop_two:
  assumes "i + 1 < length xs"
  shows "drop i xs = xs ! i # xs ! (i + 1) # drop (i + 2) xs"
proof -
  have "drop i xs = xs ! i # drop (Suc i) xs"
    using assms by (simp add: Cons_nth_drop_Suc)
  also have "drop (Suc i) xs = xs ! Suc i # drop (Suc (Suc i)) xs"
    using assms by (simp add: Cons_nth_drop_Suc)
  finally show ?thesis
    by simp
qed

lemma drop_short:
  assumes "\<not> i + 1 < length xs"
  shows "drop i xs = (if i < length xs then [last xs] else [])"
proof (cases "i < length xs")
  case True
  with assms have i: "i = length xs - 1" and ne: "xs \<noteq> []"
    by auto
  have "drop i xs = xs ! i # drop (Suc i) xs"
    using True by (simp add: Cons_nth_drop_Suc)
  with i ne True show ?thesis
    by (simp add: last_conv_nth)
next
  case False
  then show ?thesis
    by simp
qed

lemma tcpip_loop_sum:
  "tcpip_loop i data csum
     + (if length (drop i data) mod 2 = 1 then push_bit 8 (ucast (last data)) else 0)
   = csum + of_nat (rfc1071_sum (drop i data))"
proof (induction i data csum rule: tcpip_loop.induct)
  case (1 i data csum)
  show ?case
  proof (cases "i + 1 < length data")
    case True
    let ?c = "csum + push_bit 8 (ucast (data ! i)) + ucast (data ! (i + 1))"
    have "length (drop i data) = length (drop (i + 2) data) + 2"
      using True by simp
    then have parity: "length (drop (i + 2) data) mod 2 = length (drop i data) mod 2"
      by (simp only: mod_add_self2)
    have "tcpip_loop i data csum = tcpip_loop (i + 2) data ?c"
      using True by (subst tcpip_loop.simps) simp
    moreover have "(of_nat (rfc1071_sum (drop i data)) :: uint32)
        = push_bit 8 (ucast (data ! i)) + ucast (data ! (i + 1))
            + of_nat (rfc1071_sum (drop (i + 2) data))"
      by (simp add: rfc1071_sum_def drop_two [OF True] push_bit_eq_mult)
    moreover have "tcpip_loop (i + 2) data ?c
         + (if length (drop i data) mod 2 = 1 then push_bit 8 (ucast (last data)) else 0)
       = ?c + of_nat (rfc1071_sum (drop (i + 2) data))"
      using "1.IH" [OF True] by (simp only: parity)
    ultimately show ?thesis
      by (simp add: algebra_simps)
  next
    case False
    then have "tcpip_loop i data csum = csum"
      by (subst tcpip_loop.simps) simp
    then show ?thesis
      by (simp add: drop_short [OF False] rfc1071_sum_def push_bit_eq_mult)
  qed
qed

lemma header_loop_sum:
  "header_loop i buf v
     + (if length (drop i buf) mod 2 = 1 then push_bit 8 (ucast (last buf)) else 0)
   = v + of_nat (rfc1071_sum (drop i buf))"
proof (induction i buf v rule: header_loop.induct)
  case (1 i buf v)
  show ?case
  proof (cases "i + 1 < length buf")
    case True
    let ?c = "v + ucast (Uint16 (buf ! i) (buf ! (i + 1)))"
    have "length (drop i buf) = length (drop (i + 2) buf) + 2"
      using True by simp
    then have parity: "length (drop (i + 2) buf) mod 2 = length (drop i buf) mod 2"
      by (simp only: mod_add_self2)
    have "header_loop i buf v = header_loop (i + 2) buf ?c"
      using True by (subst header_loop.simps) simp
    moreover have "(of_nat (rfc1071_sum (drop i buf)) :: uint32)
        = push_bit 8 (ucast (buf ! i)) + ucast (buf ! (i + 1))
            + of_nat (rfc1071_sum (drop (i + 2) buf))"
      by (simp add: rfc1071_sum_def drop_two [OF True] push_bit_eq_mult)
    moreover have "header_loop (i + 2) buf ?c
         + (if length (drop i buf) mod 2 = 1 then push_bit 8 (ucast (last buf)) else 0)
       = ?c + of_nat (rfc1071_sum (drop (i + 2) buf))"
      using "1.IH" [OF True] by (simp only: parity)
    ultimately show ?thesis
      by (simp add: ucast_Uint16 algebra_simps)
  next
    case False
    then have "header_loop i buf v = v"
      by (subst header_loop.simps) simp
    then show ?thesis
      by (simp add: drop_short [OF False] rfc1071_sum_def push_bit_eq_mult)
  qed
qed


lemma unat_fold_step:
  fixes v :: uint32
  shows "unat (drop_bit 16 v + (v AND 0xffff)) = unat v div 65536 + unat v mod 65536"
proof -
  have "unat (drop_bit 16 v) = drop_bit 16 (unat v)"
    by (rule unat_drop_bit_eq)
  then have hi: "unat (drop_bit 16 v) = unat v div 65536"
    by (simp add: drop_bit_eq_div)
  have "v AND 0xffff = take_bit 16 v"
    using take_bit_eq_mask[of 16 v] by (simp add: mask_eq_exp_minus_1)
  then have "unat (v AND 0xffff) = take_bit 16 (unat v)"
    by (simp only: unsigned_take_bit_eq)
  then have lo: "unat (v AND 0xffff) = unat v mod 65536"
    by (simp add: take_bit_eq_mod)
  have "unat v < 2 ^ 32"
    using unsigned_less[of v] by simp
  then have "unat v div 65536 + unat v mod 65536 < 2 ^ 32"
    by simp
  then show ?thesis
    by (simp add: unat_word_ariths hi lo)
qed

lemma unat_fold_carries:
  "unat (fold_carries v) = fold_halves (unat v)"
proof (induction v rule: fold_carries.induct)
  case (1 v)
  show ?case
  proof (cases "v > 0xffff")
    case True
    then have big: "65535 < unat v"
      by (simp add: word_less_nat_alt)
    have "unat (fold_carries v) = unat (fold_carries (drop_bit 16 v + (v AND 0xffff)))"
      using True by (subst fold_carries.simps) simp
    also have "\<dots> = fold_halves (unat v div 65536 + unat v mod 65536)"
      using "1.IH" [OF True] by (simp only: unat_fold_step)
    also have "\<dots> = fold_halves (unat v)"
      using big by (subst (2) fold_halves.simps) simp
    finally show ?thesis .
  next
    case False
    then have small: "\<not> 65535 < unat v"
      by (simp add: word_less_nat_alt)
    have "fold_carries v = v"
      using False by (subst fold_carries.simps) simp
    moreover have "fold_halves (unat v) = unat v"
      using small by (subst fold_halves.simps) simp
    ultimately show ?thesis
      by simp
  qed
qed

lemma complement_fold:
  "NOT (ucast (fold_carries v) :: uint16) = ones_complement (unat v)"
proof -
  have "(ucast (fold_carries v) :: uint16) = of_nat (unat (fold_carries v))"
    by simp
  then show ?thesis
    by (simp only: ones_complement_def unat_fold_carries)
qed

lemma last_is_nth:
  "length xs mod 2 = Suc 0 \<Longrightarrow> xs ! (length xs - Suc 0) = last xs"
  by (cases "xs = []") (simp_all add: last_conv_nth)

lemma tcpipChecksum_rfc1071:
  assumes "unat csum + rfc1071_sum data < 2 ^ 32"
  shows "tcpipChecksum data csum = ones_complement (unat csum + rfc1071_sum data)"
proof -
  let ?v = "tcpip_loop 0 data csum
     + (if length data mod 2 = 1 then push_bit 8 (ucast (last data)) else 0)"
  have "?v = csum + of_nat (rfc1071_sum data)"
    using tcpip_loop_sum [of 0 data csum] by simp
  moreover have "unat (csum + of_nat (rfc1071_sum data)) = unat csum + rfc1071_sum data"
    using assms by (simp add: unat_word_ariths unat_of_nat)
  ultimately have v: "unat ?v = unat csum + rfc1071_sum data"
    by simp
  have "tcpipChecksum data csum = NOT (ucast (fold_carries ?v))"
    by (simp add: tcpipChecksum_def Let_def last_is_nth)
  then show ?thesis
    by (simp only: complement_fold v)
qed

lemma checksumIPv4Header_rfc1071:
  assumes "rfc1071_sum buf < 2 ^ 32"
  shows "checksumIPv4Header buf = rfc1071_checksum buf"
proof -
  let ?v = "header_loop 0 buf 0
     + (if length buf mod 2 = 1 then push_bit 8 (ucast (last buf)) else 0)"
  have "?v = of_nat (rfc1071_sum buf)"
    using header_loop_sum [of 0 buf 0] by simp
  moreover have "unat (of_nat (rfc1071_sum buf) :: uint32) = rfc1071_sum buf"
    using assms by (simp add: unat_of_nat)
  ultimately have v: "unat ?v = rfc1071_sum buf"
    by simp
  have "checksumIPv4Header buf = NOT (ucast (fold_carries ?v))"
    by (simp add: checksumIPv4Header_def Let_def last_is_nth)
  then show ?thesis
    by (simp only: complement_fold v rfc1071_checksum_def)
qed

lemma rfc1071_sum_bound:
  "rfc1071_sum bs \<le> 65535 * ((length bs + 1) div 2)"
proof (induction bs rule: be_words.induct)
  case 1
  show ?case by (simp add: rfc1071_sum_def)
next
  case (2 b)
  have "unat b < 256"
    using unsigned_less [of b] by simp
  then show ?case by (simp add: rfc1071_sum_def)
next
  case (3 b0 b1 bs)
  have "unat b0 < 256" "unat b1 < 256"
    using unsigned_less [of b0] unsigned_less [of b1] by simp_all
  with 3 show ?case by (simp add: rfc1071_sum_def)
qed

lemma rfc1071_sum_append:
  "even (length xs) \<Longrightarrow> rfc1071_sum (xs @ ys) = rfc1071_sum xs + rfc1071_sum ys"
  by (induction xs rule: be_words.induct) (simp_all add: rfc1071_sum_def)


lemma unat_and_ffff:
  fixes v :: uint32
  shows "unat (v AND 0xffff) = unat v mod 65536"
proof -
  have "v AND 0xffff = take_bit 16 v"
    using take_bit_eq_mask[of 16 v] by (simp add: mask_eq_exp_minus_1)
  then have "unat (v AND 0xffff) = take_bit 16 (unat v)"
    by (simp only: unsigned_take_bit_eq)
  then show ?thesis
    by (simp add: take_bit_eq_mod)
qed

lemma unat_shr16:
  fixes v :: uint32
  shows "unat (drop_bit 16 v) = unat v div 65536"
proof -
  have "unat (drop_bit 16 v) = drop_bit 16 (unat v)"
    by (rule unat_drop_bit_eq)
  then show ?thesis
    by (simp add: drop_bit_eq_div)
qed

lemma list4:
  assumes "length xs = 4"
  shows "xs = [xs ! 0, xs ! 1, xs ! 2, xs ! 3]"
  using assms by (auto simp: list_eq_iff_nth_eq nth_Cons' numeral_eq_Suc less_Suc_eq)

lemma rfc1071_sum_4:
  "rfc1071_sum [a, b, c, d] = (unat a + unat c) * 256 + (unat b + unat d)"
  by (simp add: rfc1071_sum_def)

lemma pseudo_sum_word:
  fixes a b c d :: byte
  shows "push_bit 8 (ucast a + ucast c) + (ucast b + ucast d)
           = (of_nat ((unat a + unat c) * 256 + (unat b + unat d)) :: uint32)"
  by (simp add: push_bit_eq_mult)

lemma pseudo_header_sum:
  assumes "length srcIP = 4" and "length dstIP = 4" and "p < 256" and "n < 65536"
  shows "rfc1071_sum (pseudo_header srcIP dstIP p n)
           = rfc1071_sum srcIP + rfc1071_sum dstIP + p + n"
proof -
  have p: "unat (of_nat p :: byte) = p"
    using assms(3) by (simp add: unat_of_nat)
  have "n div 256 < 256"
    using assms(4) by simp
  then have hi: "unat (of_nat (n div 256) :: byte) = n div 256"
    by (simp add: unat_of_nat)
  have lo: "unat (of_nat n :: byte) = n mod 256"
    by (simp add: unat_of_nat)
  have "rfc1071_sum [0, of_nat p, of_nat (n div 256), of_nat n :: byte] = p + n"
    by (simp add: rfc1071_sum_def p hi lo)
  then show ?thesis
    using assms(1,2) by (simp add: pseudo_header_def rfc1071_sum_append)
qed


lemma unat_byte_sum:
  fixes a c b d :: byte
  shows "(unat a + unat c) * 256 + (unat b + unat d) \<le> 131070"
proof -
  have "unat a < 256" "unat b < 256" "unat c < 256" "unat d < 256"
    using unsigned_less [of a] unsigned_less [of b] unsigned_less [of c] unsigned_less [of d]
    by simp_all
  then show ?thesis
    by simp
qed

lemma checksumIPv4TCPUDP_sum:
  assumes "length srcIP = 4" and "length dstIP = 4"
      and "protocol \<le> 0xff" and "length l4 < 65536"
  shows "checksumIPv4TCPUDP l4 protocol srcIP dstIP
           = Inr (ones_complement
               (rfc1071_sum srcIP + rfc1071_sum dstIP + unat protocol + length l4
                  + rfc1071_sum l4))"
proof -
  let ?n = "length l4"
  let ?S = "(unat (srcIP ! 0) + unat (srcIP ! 2)) * 256 + (unat (srcIP ! 1) + unat (srcIP ! 3))"
  let ?D = "(unat (dstIP ! 0) + unat (dstIP ! 2)) * 256 + (unat (dstIP ! 1) + unat (dstIP ! 3))"
  let ?csum = "(0 :: uint32)
       + push_bit 8 (ucast (srcIP ! 0) + ucast (srcIP ! 2))
       + (ucast (srcIP ! 1) + ucast (srcIP ! 3))
       + push_bit 8 (ucast (dstIP ! 0) + ucast (dstIP ! 2))
       + (ucast (dstIP ! 1) + ucast (dstIP ! 3))
       + protocol + (of_nat ?n AND 0xffff) + drop_bit 16 (of_nat ?n)"
  have S: "rfc1071_sum srcIP = ?S"
    by (subst list4 [OF assms(1)]) (simp only: rfc1071_sum_4)
  have D: "rfc1071_sum dstIP = ?D"
    by (subst list4 [OF assms(2)]) (simp only: rfc1071_sum_4)
  have Sb: "?S \<le> 131070" and Db: "?D \<le> 131070"
    by (rule unat_byte_sum)+
  have pb: "unat protocol \<le> 255"
    using assms(3) by (simp add: word_le_nat_alt)
  have n: "unat (of_nat ?n :: uint32) = ?n"
    using assms(4) by (simp add: unat_of_nat)
  have "unat (of_nat ?n AND 0xffff :: uint32) = ?n"
    using assms(4) by (simp add: unat_and_ffff n)
  then have lo: "(of_nat ?n AND 0xffff :: uint32) = of_nat ?n"
    by (metis of_nat_unat ucast_id)
  have "unat (drop_bit 16 (of_nat ?n :: uint32)) = 0"
    using assms(4) by (simp add: unat_shr16 n)
  then have hi: "drop_bit 16 (of_nat ?n :: uint32) = 0"
    by (simp add: unat_eq_0)
  have word: "?csum = of_nat (?S + ?D + unat protocol + ?n)"
    by (simp add: lo hi push_bit_eq_mult)
  have small: "?S + ?D + unat protocol + ?n < 2 ^ 32"
    using Sb Db pb assms(4) by simp
  then have csum: "unat ?csum = ?S + ?D + unat protocol + ?n"
    by (simp only: word unat_of_nat) simp
  have "rfc1071_sum l4 \<le> 65535 * ((?n + 1) div 2)"
    by (rule rfc1071_sum_bound)
  also have "\<dots> \<le> 65535 * 32768"
    using assms(4) by simp
  finally have data: "rfc1071_sum l4 \<le> 65535 * 32768" .
  have fits: "unat ?csum + rfc1071_sum l4 < 2 ^ 32"
    using Sb Db pb assms(4) data by (simp only: csum) simp
  have "checksumIPv4TCPUDP l4 protocol srcIP dstIP = Inr (tcpipChecksum l4 ?csum)"
    using assms(1,2) by (simp add: checksumIPv4TCPUDP_def Let_def)
  also have "tcpipChecksum l4 ?csum = ones_complement (unat ?csum + rfc1071_sum l4)"
    using fits by (rule tcpipChecksum_rfc1071)
  finally show ?thesis
    by (simp only: csum S D)
qed

lemma tcpipChecksum_word:
  "tcpipChecksum data csum = NOT (ucast (fold_carries (csum + of_nat (rfc1071_sum data))))"
proof -
  have "tcpip_loop 0 data csum
          + (if length data mod 2 = 1 then push_bit 8 (ucast (last data)) else 0)
        = csum + of_nat (rfc1071_sum data)"
    using tcpip_loop_sum [of 0 data csum] by simp
  moreover have "tcpipChecksum data csum = NOT (ucast (fold_carries (tcpip_loop 0 data csum
          + (if length data mod 2 = 1 then push_bit 8 (ucast (last data)) else 0))))"
    by (simp add: tcpipChecksum_def Let_def last_is_nth)
  ultimately show ?thesis
    by simp
qed

lemma be_words_replicate:
  "be_words (replicate (2 * n) b) = replicate n (unat b * 256 + unat b)"
  by (induction n) simp_all

lemma rfc1071_sum_replicate:
  "rfc1071_sum (replicate (2 * n) b) = n * (unat b * 256 + unat b)"
  by (simp add: rfc1071_sum_def be_words_replicate sum_list_replicate)

lemma rfc1071_sum_131076: "rfc1071_sum (replicate 131076 (0xff :: byte)) = 4295032830"
  using rfc1071_sum_replicate [of 65538 "0xff"] by simp

lemma overflow_code_side:
  "checksumIPv4TCPUDP (replicate 131076 0xff) 6 [0, 0, 0, 0] [0, 0, 0, 0] = Inr 0xFFF4"
  by (simp add: checksumIPv4TCPUDP_def Let_def tcpipChecksum_word rfc1071_sum_131076 fold_carries.simps)

lemma overflow_full_length:
  "ones_complement (rfc1071_sum [0, 0, 0, 0] + rfc1071_sum [0, 0, 0, 0] + 6 + 131076
        + rfc1071_sum (replicate 131076 0xff)) = 0xFFF3"
  by (simp add: rfc1071_sum_131076 rfc1071_sum_4 ones_complement_def fold_halves.simps)

lemma overflow_spec_side:
  "rfc1071_checksum (pseudo_header [0, 0, 0, 0] [0, 0, 0, 0] 6 131076 @ replicate 131076 0xff)
     = 0xFFF5"
proof -
  have "rfc1071_sum (pseudo_header [0, 0, 0, 0] [0, 0, 0, 0] 6 131076 @ replicate 131076 0xff)
         = rfc1071_sum (pseudo_header [0, 0, 0, 0] [0, 0, 0, 0] 6 131076)
            + rfc1071_sum (replicate 131076 0xff)"
    by (rule rfc1071_sum_append) (simp add: pseudo_header_def)
  also have "rfc1071_sum (pseudo_header [0, 0, 0, 0] [0, 0, 0, 0] 6 131076) = 10"
    by (simp add: pseudo_header_def rfc1071_sum_def)
  finally show ?thesis
    by (simp add: rfc1071_checksum_def rfc1071_sum_131076 ones_complement_def fold_halves.simps)
qed

text \<open>
  Claim C2, as the code has it. For 4-octet addresses, a protocol number of at most
  255 and a transport segment shorter than \<open>2 ^ 16\<close> bytes (all that the
  pseudo-header can describe), \<open>checksumIPv4TCPUDP\<close> is the one's complement of the
  RFC 1071 sum of the pseudo-header followed by the segment.
\<close>

theorem checksumIPv4TCPUDP_rfc1071:
  assumes "length srcIP = 4" and "length dstIP = 4"
      and "protocol \<le> 0xff" and "length l4 < 65536"
  shows "checksumIPv4TCPUDP l4 protocol srcIP dstIP
           = Inr (rfc1071_checksum
                    (pseudo_header srcIP dstIP (unat protocol) (length l4) @ l4))"
proof -
  have p: "unat protocol < 256"
    using assms(3) by (simp add: word_le_nat_alt)
  have "even (length (pseudo_header srcIP dstIP (unat protocol) (length l4)))"
    using assms(1,2) by (simp add: pseudo_header_def)
  then have "rfc1071_sum (pseudo_header srcIP dstIP (unat protocol) (length l4) @ l4)
      = rfc1071_sum srcIP + rfc1071_sum dstIP + unat protocol + length l4 + rfc1071_sum l4"
    by (simp add: rfc1071_sum_append pseudo_header_sum [OF assms(1,2) p assms(4)])
  then show ?thesis
    by (simp only: rfc1071_checksum_def checksumIPv4TCPUDP_sum [OF assms])
qed

text \<open>
  For every byte sequence it is not so: the accumulator is a \<open>uint32\<close>, and on
  131076 bytes \<open>0xff\<close> it wraps around. The code returns \<open>0xFFF4\<close>; the sum over
  the pseudo-header with its 16-bit length field gives \<open>0xFFF5\<close>, and the sum with
  the length counted in full gives \<open>0xFFF3\<close>.
\<close>

theorem checksumIPv4TCPUDP_rfc1071_counterexample:
  "checksumIPv4TCPUDP (replicate 131076 0xff) 6 [0, 0, 0, 0] [0, 0, 0, 0] = Inr 0xFFF4
   \<and> rfc1071_checksum
         (pseudo_header [0, 0, 0, 0] [0, 0, 0, 0] 6 131076 @ replicate 131076 0xff) = 0xFFF5
   \<and> ones_complement
         (rfc1071_sum [0, 0, 0, 0] + rfc1071_sum [0, 0, 0, 0] + 6 + 131076
            + rfc1071_sum (replicate 131076 0xff)) = 0xFFF3
   \<and> checksumIPv4TCPUDP (replicate 131076 0xff) 6 [0, 0, 0, 0] [0, 0, 0, 0]
         \<noteq> Inr (rfc1071_checksum
                  (pseudo_header [0, 0, 0, 0] [0, 0, 0, 0] 6 131076 @ replicate 131076 0xff))"
  by (simp only: overflow_code_side overflow_spec_side overflow_full_length) simp

theorem checksumIPv4TCPUDP_rfc1071_witness:
  "checksumIPv4TCPUDP (drop 20 udp_datagram) 17 [10, 0, 0, 1] [10, 0, 0, 2]
     = Inr (rfc1071_checksum
              (pseudo_header [10, 0, 0, 1] [10, 0, 0, 2] 17 18 @ drop 20 udp_datagram))"
proof -
  have len: "length (drop 20 udp_datagram) = 18"
    by (simp add: udp_datagram_def)
  then have short: "length (drop 20 udp_datagram) < 65536"
    by simp
  have "checksumIPv4TCPUDP (drop 20 udp_datagram) 17 [10, 0, 0, 1] [10, 0, 0, 2]
     = Inr (rfc1071_checksum
              (pseudo_header [10, 0, 0, 1] [10, 0, 0, 2] (unat (17 :: uint32))
                 (length (drop 20 udp_datagram)) @ drop 20 udp_datagram))"
    by (rule checksumIPv4TCPUDP_rfc1071 [OF _ _ _ short]) simp_all
  then show ?thesis
    by (simp only: len) simp
qed

section \<open>Checksum regeneration\<close>

lemma length_zero2 [simp]: "length (zero2 i buf) = length buf"
  by (simp add: zero2_def)

lemma length_put16 [simp]: "length (put16 i v buf) = length buf"
  by (simp add: put16_def)

lemma copy_into_two:
  assumes "2 \<le> slen dst" and "sbase dst + 2 \<le> length buf"
  shows "copy_into buf dst [x, y] = buf[sbase dst := x, sbase dst + 1 := y]"
proof -
  let ?b = "sbase dst"
  have "min (slen dst) (length [x, y]) = 2"
    using assms by simp
  then have c: "copy_into buf dst [x, y] = take ?b buf @ [x, y] @ drop (?b + 2) buf"
    by (simp add: copy_into_def Let_def del: length_Cons)
  have "buf = take ?b buf @ buf ! ?b # buf ! (?b + 1) # drop (?b + 2) buf"
    using assms(2) by (simp add: Cons_nth_drop_Suc)
  then have "buf[?b := x, ?b + 1 := y]
      = (take ?b buf @ buf ! ?b # buf ! (?b + 1) # drop (?b + 2) buf)[?b := x, ?b + 1 := y]"
    by simp
  also have "\<dots> = take ?b buf @ [x, y] @ drop (?b + 2) buf"
    using assms(2) by (simp add: list_update_append)
  finally show ?thesis
    by (simp only: c)
qed

lemma Uint16_bytes: "Uint16 (hi_byte v) (lo_byte v) = v"
  unfolding Uint16_def hi_byte_def lo_byte_def
  by (rule bit_word_eqI) (auto simp: bit_simps)


lemma slice_from_view:
  assumes "Packet data = Some pk" and "len pk \<le> cap pk"
  shows "slice_from (Packet data) lo =
           (if len pk < lo then Inl SliceBoundsOutOfRange
            else Inr (Some \<lparr>base = base pk + lo, len = len pk - lo, cap = cap pk - lo\<rparr>))"
  using assms by (simp add: slice_from_def slice_range_def slen_def scap_def)

lemma recalc_l4_Inr:
  assumes pk: "Packet data = Some pk" and wf: "len pk \<le> cap pk"
      and inb: "base pk + cap pk \<le> length buf"
  shows "recalc_l4 data buf ihl (ihl + k) p = Inr buf' \<longleftrightarrow>
           ihl + k + 2 \<le> len pk
           \<and> (\<exists>v. checksumIPv4TCPUDP
                      (take (len pk - ihl) (drop (base pk + ihl) (zero2 (base pk + ihl + k) buf)))
                      (ucast p)
                      (bytes (zero2 (base pk + ihl + k) buf) (Src data))
                      (bytes (zero2 (base pk + ihl + k) buf) (Dst data)) = Inr v
                  \<and> buf' = put16 (base pk + ihl + k) v (zero2 (base pk + ihl + k) buf))"
proof (cases "ihl + k + 2 \<le> len pk")
  case True
  let ?field = "Some \<lparr>base = base pk + (ihl + k), len = len pk - (ihl + k),
                        cap = cap pk - (ihl + k)\<rparr>"
  let ?Z = "zero2 (base pk + ihl + k) buf"
  have f: "slice_from (Packet data) (ihl + k) = Inr ?field"
    using True by (simp add: slice_from_view [OF pk wf])
  have l: "slice_from (Packet data) ihl
             = Inr (Some \<lparr>base = base pk + ihl, len = len pk - ihl, cap = cap pk - ihl\<rparr>)"
    using True by (simp add: slice_from_view [OF pk wf])
  have z: "copy_into buf ?field [0, 0] = ?Z"
    using True wf inb
    by (subst copy_into_two) (simp_all add: slen_def sbase_def zero2_def add.assoc)
  have put: "PutUint16 ?Z ?field v = Inr (put16 (base pk + ihl + k) v ?Z)" for v
    using True by (simp add: PutUint16_def slen_def sbase_def put16_def add.assoc)
  have b: "bytes ?Z (Some \<lparr>base = base pk + ihl, len = len pk - ihl, cap = cap pk - ihl\<rparr>)
             = take (len pk - ihl) (drop (base pk + ihl) ?Z)"
    by (simp add: bytes_def slen_def sbase_def)
  show ?thesis
    using True
    by (cases "checksumIPv4TCPUDP (take (len pk - ihl) (drop (base pk + ihl) ?Z)) (ucast p)
                 (bytes ?Z (Src data)) (bytes ?Z (Dst data))")
       (auto simp: recalc_l4_def f l z put b Let_def)
next
  case False
  have "recalc_l4 data buf ihl (ihl + k) p \<noteq> Inr buf'"
  proof (cases "len pk < ihl + k")
    case True
    then show ?thesis
      by (simp add: recalc_l4_def slice_from_view [OF pk wf])
  next
    case short: False
    let ?field = "Some \<lparr>base = base pk + (ihl + k), len = len pk - (ihl + k),
                          cap = cap pk - (ihl + k)\<rparr>"
    have f: "slice_from (Packet data) (ihl + k) = Inr ?field"
      using short by (simp add: slice_from_view [OF pk wf])
    have l: "slice_from (Packet data) ihl
             = Inr (Some \<lparr>base = base pk + ihl, len = len pk - ihl, cap = cap pk - ihl\<rparr>)"
      using short by (simp add: slice_from_view [OF pk wf])
    have put: "PutUint16 Z ?field v = Inl IndexOutOfRange" for Z v
      using False by (simp add: PutUint16_def slen_def)
    show ?thesis
      by (simp add: recalc_l4_def f l put Let_def bnd_def split: sum.splits)
  qed
  with False show ?thesis
    by simp
qed


lemma nth_zero2: "j \<noteq> i \<Longrightarrow> j \<noteq> i + 1 \<Longrightarrow> zero2 i buf ! j = buf ! j"
  by (simp add: zero2_def)

lemma nth_put16: "j \<noteq> i \<Longrightarrow> j \<noteq> i + 1 \<Longrightarrow> put16 i v buf ! j = buf ! j"
  by (simp add: put16_def)

lemma nth_header_stored:
  "j \<noteq> b + 10 \<Longrightarrow> j \<noteq> b + 11 \<Longrightarrow> header_stored b ihl buf ! j = buf ! j"
  by (simp add: header_stored_def nth_put16 nth_zero2)

lemma length_header_stored [simp]: "length (header_stored b ihl buf) = length buf"
  by (simp add: header_stored_def)

lemma RecalculateChecksum_Inr:
  assumes pk: "Packet data = Some pk" and wf: "len pk \<le> cap pk"
      and inb: "base pk + cap pk \<le> length (Buffer data)"
      and v4: "\<not> IsIPv6 data"
  shows "RecalculateChecksum data = Inr data' \<longleftrightarrow>
           12 \<le> len pk \<and> push_bit 2 (unat (Buffer data ! base pk AND 0x0f)) \<le> cap pk
           \<and> (\<exists>buf'. data' = data\<lparr>Buffer := buf'\<rparr>
                \<and> (let ihl = push_bit 2 (unat (Buffer data ! base pk AND 0x0f));
                        B2 = header_stored (base pk) ihl (Buffer data);
                        protocol = Buffer data ! (base pk + 9)
                    in if protocol = 6 then recalc_l4 data B2 ihl (ihl + 16) protocol = Inr buf'
                       else if protocol = 17 then recalc_l4 data B2 ihl (ihl + 6) protocol = Inr buf'
                       else buf' = B2))"
proof -
  let ?B = "Buffer data"
  let ?ihl = "push_bit 2 (unat (?B ! base pk AND 0x0f))"
  let ?field = "Some \<lparr>base = base pk + 10, len = len pk - 10, cap = cap pk - 10\<rparr>"
  show ?thesis
  proof (cases "12 \<le> len pk \<and> ?ihl \<le> cap pk")
    case True
    then have long: "12 \<le> len pk" and hl: "?ihl \<le> cap pk"
      by simp_all
    let ?Z = "zero2 (base pk + 10) ?B"
    let ?B2 = "header_stored (base pk) ?ihl ?B"
    have i0: "slice_index ?B (Packet data) 0 = Inr (?B ! base pk)"
      using long by (simp add: slice_index_def pk slen_def sbase_def)
    have f: "slice_from (Packet data) ipv4offsetChecksum = Inr ?field"
      using long by (simp add: slice_from_view [OF pk wf] vpn_consts)
    have z: "copy_into ?B ?field [0, 0] = ?Z"
      using long wf inb
      by (subst copy_into_two) (simp_all add: slen_def sbase_def zero2_def)
    have h: "slice_to (Packet data) ?ihl = Inr (Some \<lparr>base = base pk, len = ?ihl, cap = cap pk\<rparr>)"
      using hl by (simp add: slice_to_def slice_range_def pk scap_def)
    have hb: "bytes ?Z (Some \<lparr>base = base pk, len = ?ihl, cap = cap pk\<rparr>)
                = take ?ihl (drop (base pk) ?Z)"
      by (simp add: bytes_def slen_def sbase_def)
    have put: "PutUint16 ?Z ?field v = Inr (put16 (base pk + 10) v ?Z)" for v
      using long by (simp add: PutUint16_def slen_def sbase_def put16_def)
    have i9: "slice_index (put16 (base pk + 10) v ?Z) (Packet data) 9 = Inr (?B ! (base pk + 9))"
      for v
      using long by (simp add: slice_index_def pk slen_def sbase_def nth_put16 nth_zero2)
    have run: "RecalculateChecksum data =
         (if ?B ! (base pk + 9) = 6 then
            bnd (recalc_l4 data ?B2 ?ihl (?ihl + 16) (?B ! (base pk + 9)))
              (\<lambda>buf. Inr (data\<lparr>Buffer := buf\<rparr>))
          else if ?B ! (base pk + 9) = 17 then
            bnd (recalc_l4 data ?B2 ?ihl (?ihl + 6) (?B ! (base pk + 9)))
              (\<lambda>buf. Inr (data\<lparr>Buffer := buf\<rparr>))
          else Inr (data\<lparr>Buffer := ?B2\<rparr>))"
      using v4
      by (simp add: RecalculateChecksum_def i0 f z h hb put i9 Let_def header_stored_def
          IPProtocolTCP_def IPProtocolUDP_def cong: if_cong)
    show ?thesis
      using True by (auto simp: run Let_def bnd_eq_Inr)
  next
    case False
    have "RecalculateChecksum data \<noteq> Inr data'"
    proof (cases "len pk < 10")
      case True
      then have "slice_from (Packet data) ipv4offsetChecksum = Inl SliceBoundsOutOfRange"
        by (simp add: slice_from_view [OF pk wf] vpn_consts)
      then show ?thesis
        using v4 by (simp add: RecalculateChecksum_def Let_def bnd_def split: sum.splits)
    next
      case ten: False
      have i0: "slice_index ?B (Packet data) 0 = Inr (?B ! base pk)"
        using ten by (simp add: slice_index_def pk slen_def sbase_def)
      have f: "slice_from (Packet data) ipv4offsetChecksum = Inr ?field"
        using ten by (simp add: slice_from_view [OF pk wf] vpn_consts)
      show ?thesis
      proof (cases "?ihl \<le> cap pk")
        case True
        with False have short: "len pk < 12"
          by simp
        have h: "slice_to (Packet data) ?ihl
                   = Inr (Some \<lparr>base = base pk, len = ?ihl, cap = cap pk\<rparr>)"
          using True by (simp add: slice_to_def slice_range_def pk scap_def)
        have put: "PutUint16 Z ?field v = Inl IndexOutOfRange" for Z v
          using short by (simp add: PutUint16_def slen_def)
        show ?thesis
          using v4 by (simp add: RecalculateChecksum_def i0 f h put Let_def)
      next
        case False
        then have h: "slice_to (Packet data) ?ihl = Inl SliceBoundsOutOfRange"
          by (simp add: slice_to_def slice_range_def pk scap_def)
        show ?thesis
          using v4 by (simp add: RecalculateChecksum_def i0 f h Let_def)
      qed
    qed
    with False show ?thesis
      by auto
  qed
qed


lemma take_drop_cong:
  assumes "length X = length Y"
      and "\<And>j. j < m \<Longrightarrow> b + j < length X \<Longrightarrow> X ! (b + j) = Y ! (b + j)"
  shows "take m (drop b X) = take m (drop b Y)"
proof (rule nth_equalityI)
  show "length (take m (drop b X)) = length (take m (drop b Y))"
    using assms(1) by simp
next
  fix j
  assume "j < length (take m (drop b X))"
  then have "j < m" and "b + j < length X"
    by auto
  then show "take m (drop b X) ! j = take m (drop b Y) ! j"
    using assms by simp
qed

lemma nth_zero2_full:
  "j < length buf \<Longrightarrow> zero2 i buf ! j = (if j = i \<or> j = i + 1 then 0 else buf ! j)"
  by (auto simp: zero2_def nth_list_update)

lemma nth_put16_full:
  "j < length buf \<Longrightarrow>
   put16 i v buf ! j =
     (if j = i + 1 then lo_byte v else if j = i then hi_byte v else buf ! j)"
  by (auto simp: put16_def nth_list_update)

lemma ihl_bound:
  fixes x :: byte
  shows "push_bit 2 (unat (x AND 0x0f)) = 4 * unat (x AND 0x0f)" and "unat (x AND 0x0f) \<le> 15"
proof -
  show "push_bit 2 (unat (x AND 0x0f)) = 4 * unat (x AND 0x0f)"
    by (simp add: push_bit_eq_mult)
  have "x AND 0x0f \<le> 0x0f"
    by (rule word_and_le1)
  then show "unat (x AND 0x0f) \<le> 15"
    by (simp add: word_le_nat_alt)
qed

lemma header_zeroed_stored:
  "take ihl (drop b (zero2 (b + 10) (header_stored b ihl buf)))
     = take ihl (drop b (zero2 (b + 10) buf))"
  by (rule take_drop_cong) (auto simp: header_stored_def nth_zero2_full nth_put16_full)

lemma header_zeroed_l4:
  assumes "ihl \<le> c"
  shows "take ihl (drop b (zero2 (b + 10) (put16 (b + c) v (zero2 (b + c) buf))))
           = take ihl (drop b (zero2 (b + 10) buf))"
  using assms
  by (intro take_drop_cong) (auto simp: nth_zero2_full nth_put16_full)

lemma field_stored:
  assumes "b + 12 \<le> length buf"
  shows "Uint16 (header_stored b ihl buf ! (b + 10)) (header_stored b ihl buf ! (b + 10 + 1))
           = checksumIPv4Header (take ihl (drop b (zero2 (b + 10) buf)))"
  using assms by (simp add: header_stored_def nth_put16_full Uint16_bytes)


lemma recalc_cases:
  assumes run: "RecalculateChecksum data = Inr data'"
      and pk: "Packet data = Some pk" and wf: "len pk \<le> cap pk"
      and inb: "base pk + cap pk \<le> length (Buffer data)"
      and v4: "\<not> IsIPv6 data"
  obtains
    (plain) "12 \<le> len pk" "ihl_of data \<le> cap pk"
      "protocol_of data \<noteq> IPProtocolTCP" "protocol_of data \<noteq> IPProtocolUDP"
      "data' = data\<lparr>Buffer := header_stored (base pk) (ihl_of data) (Buffer data)\<rparr>"
  | (l4) k v where "12 \<le> len pk" "ihl_of data \<le> cap pk"
      "protocol_of data = IPProtocolTCP \<and> k = 16 \<or> protocol_of data = IPProtocolUDP \<and> k = 6"
      "ihl_of data + k + 2 \<le> len pk"
      "checksumIPv4TCPUDP
         (take (len pk - ihl_of data)
            (drop (base pk + ihl_of data)
               (zero2 (base pk + (ihl_of data + k))
                  (header_stored (base pk) (ihl_of data) (Buffer data)))))
         (ucast (protocol_of data))
         (bytes (zero2 (base pk + (ihl_of data + k))
                  (header_stored (base pk) (ihl_of data) (Buffer data))) (Src data))
         (bytes (zero2 (base pk + (ihl_of data + k))
                  (header_stored (base pk) (ihl_of data) (Buffer data))) (Dst data)) = Inr v"
      "data' = data\<lparr>Buffer := put16 (base pk + (ihl_of data + k)) v
                 (zero2 (base pk + (ihl_of data + k))
                    (header_stored (base pk) (ihl_of data) (Buffer data)))\<rparr>"
proof -
  let ?ihl = "ihl_of data"
  let ?B2 = "header_stored (base pk) ?ihl (Buffer data)"
  have ihl: "push_bit 2 (unat (Buffer data ! base pk AND 0x0f)) = ?ihl"
    by (simp add: ihl_of_def pk sbase_def)
  have proto: "Buffer data ! (base pk + 9) = protocol_of data"
    by (simp add: protocol_of_def pk sbase_def)
  have lb: "base pk + cap pk \<le> length ?B2"
    using inb by simp
  from run [unfolded RecalculateChecksum_Inr [OF pk wf inb v4] ihl proto Let_def]
  obtain buf' where long: "12 \<le> len pk" and hl: "?ihl \<le> cap pk"
    and d: "data' = data\<lparr>Buffer := buf'\<rparr>"
    and br: "if protocol_of data = 6
             then recalc_l4 data ?B2 ?ihl (?ihl + 16) (protocol_of data) = Inr buf'
             else if protocol_of data = 17
                  then recalc_l4 data ?B2 ?ihl (?ihl + 6) (protocol_of data) = Inr buf'
                  else buf' = ?B2"
    by blast
  consider "protocol_of data = 6" | "protocol_of data = 17"
    | "protocol_of data \<noteq> 6" "protocol_of data \<noteq> 17"
    by blast
  then show thesis
  proof cases
    case 1
    with br have "recalc_l4 data ?B2 ?ihl (?ihl + 16) (protocol_of data) = Inr buf'"
      by simp
    from this [unfolded recalc_l4_Inr [OF pk wf lb]] 1 long hl d show thesis
      by (auto simp: add.assoc IPProtocolTCP_def intro: l4 [of 16])
  next
    case 2
    with br have "recalc_l4 data ?B2 ?ihl (?ihl + 6) (protocol_of data) = Inr buf'"
      by simp
    from this [unfolded recalc_l4_Inr [OF pk wf lb]] 2 long hl d show thesis
      by (auto simp: add.assoc IPProtocolUDP_def intro: l4 [of 6])
  next
    case 3
    with br long hl d show thesis
      by (auto simp: IPProtocolTCP_def IPProtocolUDP_def intro: plain)
  qed
qed


lemma short_header_rfc1071:
  assumes "length buf \<le> 60"
  shows "checksumIPv4Header buf = rfc1071_checksum buf"
proof -
  have "rfc1071_sum buf \<le> 65535 * ((length buf + 1) div 2)"
    by (rule rfc1071_sum_bound)
  also have "\<dots> \<le> 65535 * 30"
    using assms by simp
  finally have "rfc1071_sum buf < 2 ^ 32"
    by simp
  then show ?thesis
    by (rule checksumIPv4Header_rfc1071)
qed

lemma ihl_of_le: "ihl_of data \<le> 60"
  using ihl_bound(2) [of "Buffer data ! sbase (Packet data)"]
  by (simp add: ihl_of_def ihl_bound(1))

lemma ihl_of_mult: "\<exists>m. ihl_of data = 4 * m"
  by (simp add: ihl_of_def ihl_bound(1))

lemma same_view:
  "Packet (data\<lparr>Buffer := buf\<rparr>) = Packet data"
  by simp

lemma ihl_of_update:
  assumes "buf ! sbase (Packet data) = Buffer data ! sbase (Packet data)"
  shows "ihl_of (data\<lparr>Buffer := buf\<rparr>) = ihl_of data"
  using assms by (simp add: ihl_of_def)

lemma list_update_Cons_numeral:
  "(x # xs)[numeral n := y] = x # xs[pred_numeral n := y]"
  by (simp add: numeral_eq_Suc)

lemmas eval_defs =
  list_update_append list_update_Cons_numeral
  RecalculateChecksum_def parsed_ipv4_def packet_of_def vpn_consts
  slice_index_def slice_from_def slice_range_def slice_to_def slen_def scap_def sbase_def
  copy_into_def Let_def nth_append bytes_def PutUint16_def recalc_l4_def
  checksumIPv4Header_def header_loop.simps fold_carries.simps Uint16_def
  checksumIPv4TCPUDP_def tcpipChecksum_def tcpip_loop.simps hi_byte_def lo_byte_def

lemma recalc_short_ihl:
  "RecalculateChecksum (parsed_ipv4 short_ihl_udp) =
     Inr (parsed_ipv4
       [0x41, 0, 0, 0x26, 0, 1, 0, 0, 0x40, 0x11, 47, 228, 10, 0, 0, 1, 10, 0, 0, 2,
        0x12, 0x34, 0, 0x35, 0, 0x12, 0, 0,
        0xaa, 0xaa, 0xaa, 0xaa, 0xaa, 0xaa, 0xaa, 0xaa, 0xaa, 0xaa])"
  by (simp add: eval_defs short_ihl_udp_def)


lemma recalc_udp_datagram:
  "RecalculateChecksum (parsed_ipv4 udp_datagram) =
     Inr (parsed_ipv4
       [0x45, 0, 0, 0x26, 0, 1, 0, 0, 0x40, 0x11, 102, 196, 10, 0, 0, 1, 10, 0, 0, 2,
        0x12, 0x34, 0, 0x35, 0, 0x12, 132, 9,
        0xaa, 0xaa, 0xaa, 0xaa, 0xaa, 0xaa, 0xaa, 0xaa, 0xaa, 0xaa])"
  by (simp add: eval_defs udp_datagram_def)

lemma parsed_ipv4_view:
  "Packet (parsed_ipv4 bs) = Some \<lparr>base = 4, len = length bs, cap = 6996\<rparr>"
  by (simp add: parsed_ipv4_def packet_of_view)

lemma parsed_ipv4_nth:
  "i < length bs \<Longrightarrow> Buffer (parsed_ipv4 bs) ! (4 + i) = bs ! i"
  by (simp add: parsed_ipv4_def packet_of_nth)

lemma parsed_ipv4_length:
  "length bs \<le> 6996 \<Longrightarrow> length (Buffer (parsed_ipv4 bs)) = 7000"
  using length_packet_of [of bs] by (simp add: parsed_ipv4_def vpn_consts)

lemma Parse_packet_of:
  assumes "20 \<le> length bs" and "drop_bit 4 (bs ! 0) = 4"
  shows "Parse (packet_of bs) = Inr (True, parsed_ipv4 bs)"
  using assms
  by (auto simp: Parse_def Let_def packet_of_def slice_index_def slice_range_def slen_def
      scap_def sbase_def vpn_consts parsed_ipv4_def nth_append)

lemma header_field_after_recalc:
  assumes run: "RecalculateChecksum data = Inr data'"
      and pk: "Packet data = Some pk" and wf: "len pk \<le> cap pk"
      and inb: "base pk + cap pk \<le> length (Buffer data)"
      and v4: "\<not> IsIPv6 data"
      and ex: "\<not> (ihl_of data = 4 \<and> protocol_of data = IPProtocolUDP)"
  shows "checksum_field data' = checksumIPv4Header (header_zeroed data')
       \<and> checksumIPv4Header (header_zeroed data') = rfc1071_checksum (header_zeroed data')
       \<and> ihl_of data' = ihl_of data"
proof -
  let ?b = "base pk"
  let ?ihl = "ihl_of data"
  let ?B = "Buffer data"
  let ?B2 = "header_stored ?b ?ihl ?B"
  let ?h = "checksumIPv4Header (take ?ihl (drop ?b (zero2 (?b + 10) ?B)))"
  have sb: "sbase (Packet data) = ?b"
    by (simp add: pk sbase_def)
  have facts: "ihl_of data' = ?ihl
      \<and> checksum_field data' = ?h
      \<and> header_zeroed data' = take ?ihl (drop ?b (zero2 (?b + 10) ?B))"
    using run pk wf inb v4
  proof (cases rule: recalc_cases)
    case plain
    have room: "?b + 12 \<le> length ?B"
      using plain(1) wf inb by simp
    have i: "ihl_of data' = ?ihl"
      unfolding plain(5) using room
      by (intro ihl_of_update) (simp add: sb nth_header_stored)
    have f: "checksum_field data' = ?h"
      using field_stored [OF room, of ?ihl]
      by (simp add: checksum_field_def plain(5) sb vpn_consts)
    have z: "header_zeroed data' = take ?ihl (drop ?b (zero2 (?b + 10) ?B))"
      unfolding header_zeroed_def i
      by (simp add: plain(5) sb vpn_consts header_zeroed_stored)
    from i f z show ?thesis
      by simp
  next
    case (l4 k v)
    let ?C = "?b + (?ihl + k)"
    have room: "?b + 12 \<le> length ?B" and croom: "?C + 2 \<le> length ?B"
      using l4(1,4) wf inb by simp_all
    obtain m where m: "?ihl = 4 * m"
      using ihl_of_mult by blast
    have k: "k = 6 \<or> k = 16"
      using l4(3) by blast
    have apart: "?b + 10 \<noteq> ?C" "?b + 10 \<noteq> ?C + 1" "?b + 11 \<noteq> ?C" "?b + 11 \<noteq> ?C + 1"
      using l4(3) ex m by (auto simp: IPProtocolTCP_def IPProtocolUDP_def)
    have i: "ihl_of data' = ?ihl"
      unfolding l4(6) using room croom k
      by (intro ihl_of_update) (auto simp: sb nth_put16_full nth_zero2_full nth_header_stored)
    have keep: "put16 ?C v (zero2 ?C ?B2) ! j = ?B2 ! j" if "j = ?b + 10 \<or> j = ?b + 11" for j
      using that apart room by (auto simp: nth_put16_full nth_zero2_full)
    have f: "checksum_field data' = ?h"
      using field_stored [OF room, of ?ihl] keep
      by (simp add: checksum_field_def l4(6) sb vpn_consts)
    have "take ?ihl (drop ?b (zero2 (?b + 10) (put16 ?C v (zero2 ?C ?B2))))
            = take ?ihl (drop ?b (zero2 (?b + 10) ?B2))"
      by (rule header_zeroed_l4) simp
    then have z: "header_zeroed data' = take ?ihl (drop ?b (zero2 (?b + 10) ?B))"
      unfolding header_zeroed_def i
      by (simp add: l4(6) sb vpn_consts header_zeroed_stored)
    from i f z show ?thesis
      by simp
  qed
  have "length (header_zeroed data') \<le> 60"
    using ihl_of_le [of data'] by (simp add: header_zeroed_def)
  then have "checksumIPv4Header (header_zeroed data') = rfc1071_checksum (header_zeroed data')"
    by (rule short_header_rfc1071)
  with facts show ?thesis
    by simp
qed

text \<open>
  Claim C3, as the code has it. \<open>checksumIPv4Header\<close> is the RFC 1071 checksum of
  a header, and when \<open>RecalculateChecksum\<close> has completed on an IPv4 packet the two
  bytes at \<open>ipv4offsetChecksum\<close> hold, big-endian, that checksum of \<open>packet[:ihl]\<close>
  taken with these two bytes zero, unless the packet is UDP with a header-length
  nibble of 1, where the UDP checksum field is the same two bytes.
\<close>

theorem RecalculateChecksum_header_field:
  assumes run: "RecalculateChecksum data = Inr data'"
      and pk: "Packet data = Some pk" and wf: "len pk \<le> cap pk"
      and inb: "base pk + cap pk \<le> length (Buffer data)"
      and v4: "\<not> IsIPv6 data"
      and ex: "\<not> (ihl_of data = 4 \<and> protocol_of data = IPProtocolUDP)"
  shows "checksum_field data' = checksumIPv4Header (header_zeroed data')
       \<and> checksumIPv4Header (header_zeroed data') = rfc1071_checksum (header_zeroed data')
       \<and> ihl_of data' = ihl_of data"
  using assms by (rule header_field_after_recalc)

text \<open>
  The excluded case is real: \<open>Parse\<close> accepts a header-length nibble below 5, and
  with nibble 1 and protocol 17 the transport checksum is stored at offset
  \<open>4 + 6 = 10\<close>, over the header checksum.
\<close>

theorem RecalculateChecksum_header_field_counterexample:
  "Parse (packet_of short_ihl_udp) = Inr (True, parsed_ipv4 short_ihl_udp)
   \<and> RecalculateChecksum (parsed_ipv4 short_ihl_udp) =
       Inr (parsed_ipv4
         [0x41, 0, 0, 0x26, 0, 1, 0, 0, 0x40, 0x11, 47, 228, 10, 0, 0, 1, 10, 0, 0, 2,
          0x12, 0x34, 0, 0x35, 0, 0x12, 0, 0,
          0xaa, 0xaa, 0xaa, 0xaa, 0xaa, 0xaa, 0xaa, 0xaa, 0xaa, 0xaa])
   \<and> checksum_field (parsed_ipv4
         [0x41, 0, 0, 0x26, 0, 1, 0, 0, 0x40, 0x11, 47, 228, 10, 0, 0, 1, 10, 0, 0, 2,
          0x12, 0x34, 0, 0x35, 0, 0x12, 0, 0,
          0xaa, 0xaa, 0xaa, 0xaa, 0xaa, 0xaa, 0xaa, 0xaa, 0xaa, 0xaa]) = 0x2FE4
   \<and> checksumIPv4Header (header_zeroed (parsed_ipv4
         [0x41, 0, 0, 0x26, 0, 1, 0, 0, 0x40, 0x11, 47, 228, 10, 0, 0, 1, 10, 0, 0, 2,
          0x12, 0x34, 0, 0x35, 0, 0x12, 0, 0,
          0xaa, 0xaa, 0xaa, 0xaa, 0xaa, 0xaa, 0xaa, 0xaa, 0xaa, 0xaa])) = 0xBED9"
proof -
  have "Parse (packet_of short_ihl_udp) = Inr (True, parsed_ipv4 short_ihl_udp)"
    by (rule Parse_packet_of) (simp_all add: short_ihl_udp_def)
  moreover have "checksum_field (parsed_ipv4
         [0x41, 0, 0, 0x26, 0, 1, 0, 0, 0x40, 0x11, 47, 228, 10, 0, 0, 1, 10, 0, 0, 2,
          0x12, 0x34, 0, 0x35, 0, 0x12, 0, 0,
          0xaa, 0xaa, 0xaa, 0xaa, 0xaa, 0xaa, 0xaa, 0xaa, 0xaa, 0xaa]) = 0x2FE4"
    by (simp add: checksum_field_def eval_defs)
  moreover have "checksumIPv4Header (header_zeroed (parsed_ipv4
         [0x41, 0, 0, 0x26, 0, 1, 0, 0, 0x40, 0x11, 47, 228, 10, 0, 0, 1, 10, 0, 0, 2,
          0x12, 0x34, 0, 0x35, 0, 0x12, 0, 0,
          0xaa, 0xaa, 0xaa, 0xaa, 0xaa, 0xaa, 0xaa, 0xaa, 0xaa, 0xaa])) = 0xBED9"
    by (simp add: header_zeroed_def ihl_of_def zero2_def eval_defs)
  ultimately show ?thesis
    using recalc_short_ihl by simp
qed

theorem RecalculateChecksum_header_field_witness:
  "checksum_field (parsed_ipv4
       [0x45, 0, 0, 0x26, 0, 1, 0, 0, 0x40, 0x11, 102, 196, 10, 0, 0, 1, 10, 0, 0, 2,
        0x12, 0x34, 0, 0x35, 0, 0x12, 132, 9,
        0xaa, 0xaa, 0xaa, 0xaa, 0xaa, 0xaa, 0xaa, 0xaa, 0xaa, 0xaa])
     = checksumIPv4Header (header_zeroed (parsed_ipv4
       [0x45, 0, 0, 0x26, 0, 1, 0, 0, 0x40, 0x11, 102, 196, 10, 0, 0, 1, 10, 0, 0, 2,
        0x12, 0x34, 0, 0x35, 0, 0x12, 132, 9,
        0xaa, 0xaa, 0xaa, 0xaa, 0xaa, 0xaa, 0xaa, 0xaa, 0xaa, 0xaa]))"
proof -
  have pk: "Packet (parsed_ipv4 udp_datagram) = Some \<lparr>base = 4, len = 38, cap = 6996\<rparr>"
    by (simp add: parsed_ipv4_view udp_datagram_def)
  have inb: "base \<lparr>base = 4, len = 38, cap = 6996\<rparr> + cap \<lparr>base = 4, len = 38, cap = 6996\<rparr>
               \<le> length (Buffer (parsed_ipv4 udp_datagram))"
    by (simp add: parsed_ipv4_length udp_datagram_def)
  have v4: "\<not> IsIPv6 (parsed_ipv4 udp_datagram)"
    by (simp add: parsed_ipv4_def packet_of_def)
  have "Buffer (parsed_ipv4 udp_datagram) ! 4 = 0x45"
    using parsed_ipv4_nth [of 0 udp_datagram] by (simp add: udp_datagram_def)
  then have "ihl_of (parsed_ipv4 udp_datagram) = 20"
    by (simp add: ihl_of_def pk sbase_def)
  then have ex: "\<not> (ihl_of (parsed_ipv4 udp_datagram) = 4
                    \<and> protocol_of (parsed_ipv4 udp_datagram) = IPProtocolUDP)"
    by simp
  from RecalculateChecksum_header_field [OF recalc_udp_datagram pk _ inb v4 ex]
  show ?thesis
    by simp
qed

lemma header_stored_again:
  "header_stored b ihl (header_stored b ihl buf) = header_stored b ihl buf"
proof -
  have "zero2 (b + 10) (header_stored b ihl buf) = zero2 (b + 10) buf"
    by (rule nth_equalityI) (auto simp: header_stored_def nth_zero2_full nth_put16_full)
  then show ?thesis
    by (simp add: header_stored_def [of b ihl "header_stored b ihl buf"] header_zeroed_stored)
       (simp add: header_stored_def)
qed

lemma zeroed_l4_again:
  assumes "ihl \<le> c"
  shows "zero2 (b + c) (header_stored b ihl (put16 (b + c) v (zero2 (b + c) (header_stored b ihl buf))))
           = zero2 (b + c) (header_stored b ihl buf)"
proof -
  let ?B' = "put16 (b + c) v (zero2 (b + c) (header_stored b ihl buf))"
  have h: "take ihl (drop b (zero2 (b + 10) ?B')) = take ihl (drop b (zero2 (b + 10) buf))"
    using header_zeroed_l4 [OF assms, of b v "header_stored b ihl buf"]
    by (simp add: header_zeroed_stored)
  show ?thesis
    unfolding header_stored_def [of b ihl ?B'] h
    by (rule nth_equalityI) (auto simp: header_stored_def nth_zero2_full nth_put16_full)
qed


text \<open>
  Claim C6. When \<open>RecalculateChecksum\<close> has completed on a packet buffer, running
  it again completes and leaves the buffer exactly as it is: the second run zeroes
  the same fields, reads the same bytes and stores the same checksums.
\<close>

theorem RecalculateChecksum_idempotent:
  assumes run: "RecalculateChecksum data = Inr data'"
      and pk: "Packet data = Some pk" and wf: "len pk \<le> cap pk"
      and inb: "base pk + cap pk \<le> length (Buffer data)"
  shows "RecalculateChecksum data' = Inr data'"
proof (cases "IsIPv6 data")
  case True
  with run have "data' = data"
    by (simp add: RecalculateChecksum_def)
  with run show ?thesis
    by simp
next
  case v4: False
  let ?b = "base pk"
  let ?ihl = "ihl_of data"
  let ?B = "Buffer data"
  let ?B2 = "header_stored ?b ?ihl ?B"
  have sb: "sbase (Packet data) = ?b"
    by (simp add: pk sbase_def)
  have ihl: "push_bit 2 (unat (?B ! ?b AND 0x0f)) = ?ihl"
    by (simp add: ihl_of_def sb)
  have proto: "?B ! (?b + 9) = protocol_of data"
    by (simp add: protocol_of_def sb)
  from run pk wf inb v4 show ?thesis
  proof (cases rule: recalc_cases)
    case plain
    have pk': "Packet data' = Some pk" and v4': "\<not> IsIPv6 data'"
      and inb': "?b + cap pk \<le> length (Buffer data')"
      using pk v4 inb by (simp_all add: plain(5))
    have b0: "Buffer data' ! ?b = ?B ! ?b" and b9: "Buffer data' ! (?b + 9) = ?B ! (?b + 9)"
      by (simp_all add: plain(5) nth_header_stored)
    have "data' = data'\<lparr>Buffer := ?B2\<rparr>"
      by (simp add: plain(5))
    moreover have "header_stored ?b ?ihl (Buffer data') = ?B2"
      by (simp add: plain(5) header_stored_again)
    ultimately show ?thesis
      unfolding RecalculateChecksum_Inr [OF pk' wf inb' v4'] b0 b9 ihl proto Let_def
      using plain(1-4) by (auto simp: IPProtocolTCP_def IPProtocolUDP_def)
  next
    case (l4 k v)
    let ?C = "?b + (?ihl + k)"
    let ?Z = "zero2 ?C ?B2"
    let ?B' = "put16 ?C v ?Z"
    have pk': "Packet data' = Some pk" and v4': "\<not> IsIPv6 data'"
      and inb': "?b + cap pk \<le> length (Buffer data')"
      and views: "Src data' = Src data" "Dst data' = Dst data"
      and buf: "Buffer data' = ?B'"
      using pk v4 inb by (simp_all add: l4(6))
    have k: "k = 6 \<or> k = 16"
      using l4(3) by blast
    have room: "?b + 12 \<le> length ?B" and croom: "?C + 2 \<le> length ?B"
      using l4(1,4) wf inb by simp_all
    have b0: "Buffer data' ! ?b = ?B ! ?b"
      using room croom k by (auto simp: buf nth_put16_full nth_zero2_full nth_header_stored)
    obtain m where m: "?ihl = 4 * m"
      using ihl_of_mult by blast
    have "?ihl + k \<noteq> 9" "?ihl + k + 1 \<noteq> 9"
      using k m by presburger+
    then have "?b + 9 \<noteq> ?C" "?b + 9 \<noteq> ?C + 1"
      by simp_all
    then have b9: "Buffer data' ! (?b + 9) = ?B ! (?b + 9)"
      using room croom by (simp add: buf nth_put16_full nth_zero2_full nth_header_stored)
    let ?B2' = "header_stored ?b ?ihl ?B'"
    have lb: "?b + cap pk \<le> length ?B2'"
      using inb by simp
    have z: "zero2 (?b + ?ihl + k) ?B2' = ?Z"
      using zeroed_l4_again [of ?ihl "?ihl + k" ?b v ?B] by (simp add: add.assoc)
    have again: "recalc_l4 data' ?B2' ?ihl (?ihl + k) (protocol_of data) = Inr ?B'"
      unfolding recalc_l4_Inr [OF pk' wf lb] z views
      using l4(4,5) by (simp add: add.assoc)
    from again have "recalc_l4 data' (header_stored ?b ?ihl (Buffer data')) ?ihl (?ihl + k)
                       (protocol_of data) = Inr (Buffer data')"
      by (simp only: buf)
    moreover have "data' = data'\<lparr>Buffer := Buffer data'\<rparr>"
      by simp
    ultimately show ?thesis
      unfolding RecalculateChecksum_Inr [OF pk' wf inb' v4'] b0 b9 ihl proto Let_def
      using l4(1-3) by (auto simp: IPProtocolTCP_def IPProtocolUDP_def)
  qed
qed

theorem RecalculateChecksum_idempotent_witness:
  "RecalculateChecksum (parsed_ipv4
       [0x45, 0, 0, 0x26, 0, 1, 0, 0, 0x40, 0x11, 102, 196, 10, 0, 0, 1, 10, 0, 0, 2,
        0x12, 0x34, 0, 0x35, 0, 0x12, 132, 9,
        0xaa, 0xaa, 0xaa, 0xaa, 0xaa, 0xaa, 0xaa, 0xaa, 0xaa, 0xaa])
     = Inr (parsed_ipv4
       [0x45, 0, 0, 0x26, 0, 1, 0, 0, 0x40, 0x11, 102, 196, 10, 0, 0, 1, 10, 0, 0, 2,
        0x12, 0x34, 0, 0x35, 0, 0x12, 132, 9,
        0xaa, 0xaa, 0xaa, 0xaa, 0xaa, 0xaa, 0xaa, 0xaa, 0xaa, 0xaa])"
proof -
  have pk: "Packet (parsed_ipv4 udp_datagram) = Some \<lparr>base = 4, len = 38, cap = 6996\<rparr>"
    by (simp add: parsed_ipv4_view udp_datagram_def)
  have inb: "base \<lparr>base = 4, len = 38, cap = 6996\<rparr> + cap \<lparr>base = 4, len = 38, cap = 6996\<rparr>
               \<le> length (Buffer (parsed_ipv4 udp_datagram))"
    by (simp add: parsed_ipv4_length udp_datagram_def)
  show ?thesis
    by (rule RecalculateChecksum_idempotent [OF recalc_udp_datagram pk _ inb]) simp
qed

end
